theory Spec2Isabelle
  imports Main "HOL-Library.Word" "HOL-Library.AList" "HOL-Library.Sublist"
begin

unbundle bit_operations_syntax

section \<open>JavaScript numbers and Node buffers\<close>

text \<open>
  The numbers of the codec are integers, modelled as \<open>int\<close>. A bitwise operator of
  JavaScript converts its operands to 32-bit two's complement (ToInt32), works on the
  bits and gives the signed reading of the result back.
\<close>

definition ToInt32 :: "int \<Rightarrow> 32 word" where
  "ToInt32 n = word_of_int n"

definition js_and :: "int \<Rightarrow> int \<Rightarrow> int" where
  "js_and a b = sint (ToInt32 a AND ToInt32 b)"

definition js_or :: "int \<Rightarrow> int \<Rightarrow> int" where
  "js_or a b = sint (ToInt32 a OR ToInt32 b)"

definition js_xor :: "int \<Rightarrow> int \<Rightarrow> int" where
  "js_xor a b = sint (ToInt32 a XOR ToInt32 b)"

text \<open>\<open>a >> n\<close>: the sign-propagating shift, the count taken modulo 32.\<close>

definition js_shr :: "int \<Rightarrow> int \<Rightarrow> int" where
  "js_shr a n = sint (signed_drop_bit (nat (n mod 32)) (ToInt32 a))"

text \<open>\<open>a << n\<close>.\<close>

definition js_shl :: "int \<Rightarrow> int \<Rightarrow> int" where
  "js_shl a n = sint (push_bit (nat (n mod 32)) (ToInt32 a))"

text \<open>
  The errors of the codec, under the names registered with the ErrorManager, and the
  range error that a Node buffer raises on a value or an offset out of range.
\<close>

datatype error =
    V2MODBUS_CRC_CHECK_FAILED
  | V2MODBUS_PACKET_TOO_SHORT
  | V2MODBUS_WRITE_DATA_REQUIRED_COILS
  | V2MODBUS_COILS_COUNT_INVALID
  | V2MODBUS_WRITE_DATA_REQUIRED_REGISTERS
  | V2MODBUS_REGISTERS_COUNT_INVALID
  | V2MODBUS_UNSUPPORTED_FUNCTION_CODE
  | ERR_OUT_OF_RANGE

text \<open>A statement that may throw, followed by the rest of the function.\<close>

definition and_then :: "error + 'a \<Rightarrow> ('a \<Rightarrow> error + 'b) \<Rightarrow> error + 'b" where
  "and_then m f = (case m of Inl e \<Rightarrow> Inl e | Inr x \<Rightarrow> f x)"

type_synonym Buffer = "8 word list"

definition alloc :: "nat \<Rightarrow> Buffer" where
  "alloc n = replicate n 0"

definition readUInt8 :: "nat \<Rightarrow> Buffer \<Rightarrow> error + int" where
  "readUInt8 off buf =
     (if off + 1 \<le> length buf then Inr (uint (buf ! off)) else Inl ERR_OUT_OF_RANGE)"

definition readUInt16LE :: "nat \<Rightarrow> Buffer \<Rightarrow> error + int" where
  "readUInt16LE off buf =
     (if off + 2 \<le> length buf
      then Inr (uint (buf ! off) + 256 * uint (buf ! (off + 1)))
      else Inl ERR_OUT_OF_RANGE)"

definition writeUInt8 :: "int \<Rightarrow> nat \<Rightarrow> Buffer \<Rightarrow> error + Buffer" where
  "writeUInt8 v off buf =
     (if 0 \<le> v \<and> v \<le> 255 \<and> off + 1 \<le> length buf
      then Inr (buf[off := word_of_int v])
      else Inl ERR_OUT_OF_RANGE)"

definition writeUInt16BE :: "int \<Rightarrow> nat \<Rightarrow> Buffer \<Rightarrow> error + Buffer" where
  "writeUInt16BE v off buf =
     (if 0 \<le> v \<and> v \<le> 65535 \<and> off + 2 \<le> length buf
      then Inr (buf[off := word_of_int (v div 256), off + 1 := word_of_int (v mod 256)])
      else Inl ERR_OUT_OF_RANGE)"

definition writeUInt16LE :: "int \<Rightarrow> nat \<Rightarrow> Buffer \<Rightarrow> error + Buffer" where
  "writeUInt16LE v off buf =
     (if 0 \<le> v \<and> v \<le> 65535 \<and> off + 2 \<le> length buf
      then Inr (buf[off := word_of_int (v mod 256), off + 1 := word_of_int (v div 256)])
      else Inl ERR_OUT_OF_RANGE)"

text \<open>
  \<open>buffer.subarray(start, end)\<close>: a negative index counts from the end, both indices are
  clamped to the buffer, and an end before the start gives the empty buffer.
\<close>

definition subarray :: "int \<Rightarrow> int \<Rightarrow> Buffer \<Rightarrow> Buffer" where
  "subarray start end buf =
     (let len = int (length buf);
          b = (if start < 0 then max (len + start) 0 else min start len);
          e = (if end < 0 then max (len + end) 0 else min end len)
      in take (nat (e - b)) (drop (nat b) buf))"

section \<open>ModbusRTU: the frame codec\<close>

subsection \<open>calculateCRC16\<close>

text \<open>
  The inner loop of \<open>calculateCRC16\<close>, \<open>j\<close> iterations of
  \<^verbatim>\<open>if ((crc & 0x0001) !== 0) crc = (crc >> 1) ^ 0xA001; else crc = crc >> 1;\<close>
\<close>

fun crc_bits :: "nat \<Rightarrow> int \<Rightarrow> int" where
  "crc_bits 0 crc = crc"
| "crc_bits (Suc j) crc =
     crc_bits j (if js_and crc 1 \<noteq> 0 then js_xor (js_shr crc 1) 0xA001 else js_shr crc 1)"

text \<open>One round of the outer loop: \<^verbatim>\<open>crc ^= buffer[i]\<close>, then the eight shifts.\<close>

definition crc_byte :: "int \<Rightarrow> 8 word \<Rightarrow> int" where
  "crc_byte crc b = crc_bits 8 (js_xor crc (uint b))"

definition calculateCRC16 :: "Buffer \<Rightarrow> int" where
  "calculateCRC16 buffer = foldl crc_byte 0xFFFF buffer"

subsection \<open>addCRC and verifyCRC\<close>

definition addCRC :: "Buffer \<Rightarrow> error + Buffer" where
  "addCRC data =
     (let crc = calculateCRC16 data
      in and_then (writeUInt16LE crc 0 (alloc 2)) (\<lambda>crcBuf. Inr (data @ crcBuf)))"

definition verifyCRC :: "Buffer \<Rightarrow> error + bool" where
  "verifyCRC buffer =
     (if length buffer < 2 then Inr False
      else let data = subarray 0 (- 2) buffer
           in and_then (readUInt16LE (length buffer - 2) buffer) (\<lambda>receivedCRC.
              let calculatedCRC = calculateCRC16 data
              in Inr (receivedCRC = calculatedCRC)))"

subsection \<open>parseResponse\<close>

record ModbusResponse =
  slaveId :: int
  functionCode :: int
  byteCount :: int
  data :: Buffer
  exceptionCode :: "int option"

definition parseResponse :: "Buffer \<Rightarrow> error + ModbusResponse" where
  "parseResponse buffer =
     (if length buffer < 4 then Inl V2MODBUS_PACKET_TOO_SHORT
      else and_then (verifyCRC buffer) (\<lambda>ok.
        if \<not> ok then Inl V2MODBUS_CRC_CHECK_FAILED
        else and_then (readUInt8 0 buffer) (\<lambda>sid.
             and_then (readUInt8 1 buffer) (\<lambda>fc.
          if js_and fc 0x80 \<noteq> 0
          then and_then (readUInt8 2 buffer) (\<lambda>exc.
                 Inr \<lparr>slaveId = sid, functionCode = js_and fc 0x7F, byteCount = 0,
                      data = alloc 0, exceptionCode = Some exc\<rparr>)
          else let bc = int (length buffer) - 4;
                   payload = subarray 2 (- 2) buffer
               in if fc = 0x01 \<or> fc = 0x02 \<or> fc = 0x03 \<or> fc = 0x04
                  then and_then (readUInt8 2 buffer) (\<lambda>bc.
                         let payload = subarray 3 (- 2) buffer
                         in Inr \<lparr>slaveId = sid, functionCode = fc, byteCount = bc,
                                 data = payload, exceptionCode = None\<rparr>)
                  else Inr \<lparr>slaveId = sid, functionCode = fc, byteCount = bc,
                            data = payload, exceptionCode = None\<rparr>))))"

subsection \<open>isCompletePacket\<close>

text \<open>
  The read-class cases of the \<open>switch\<close> have no \<open>break\<close>: when the buffer has at most
  5 bytes they fall through to the \<open>default\<close> case.
\<close>

definition isCompletePacket :: "Buffer \<Rightarrow> error + bool" where
  "isCompletePacket buffer =
     (if length buffer < 4 then Inr False
      else and_then (readUInt8 1 buffer) (\<lambda>fc.
        if fc = 0x01 \<or> fc = 0x02 \<or> fc = 0x03 \<or> fc = 0x04
        then (if length buffer > 5
              then and_then (readUInt8 2 buffer) (\<lambda>n. Inr (int (length buffer) = n + 5))
              else Inr (length buffer = 8))
        else Inr (length buffer = 8)))"

subsection \<open>makeRequest\<close>

text \<open>\<open>Math.ceil(quantity / 8)\<close> on an integer quantity.\<close>

definition ceil8 :: "int \<Rightarrow> int" where
  "ceil8 q = - ((- q) div 8)"

text \<open>
  The loop that packs the coils,
  \<^verbatim>\<open>if (writeData[i]) buffer[7 + byteIndex] |= (1 << bitIndex)\<close>
  for \<open>i\<close> from 0 to \<open>quantity - 1\<close>: a number is truthy when it is not 0, and the store
  into the buffer keeps the low 8 bits.
\<close>

definition pack_coils :: "int list \<Rightarrow> nat \<Rightarrow> Buffer \<Rightarrow> Buffer" where
  "pack_coils writeData quantity buffer =
     foldl (\<lambda>buf i.
        let byteIndex = i div 8; bitIndex = i mod 8
        in if writeData ! i \<noteq> 0
           then buf[7 + byteIndex :=
                  word_of_int (js_or (uint (buf ! (7 + byteIndex))) (js_shl 1 (int bitIndex)))]
           else buf)
       buffer [0..<quantity]"

text \<open>
  The loop that writes the registers, over the indices still to do. The elements of
  \<open>writeData\<close> are numbers (\<open>number[]\<close>), so the \<open>typeof\<close> test never skips one.
\<close>

fun write_registers :: "int list \<Rightarrow> nat list \<Rightarrow> Buffer \<Rightarrow> error + Buffer" where
  "write_registers writeData [] buffer = Inr buffer"
| "write_registers writeData (i # rest) buffer =
     and_then (writeUInt16BE (js_and (writeData ! i) 0xFFFF) (7 + i * 2) buffer)
       (write_registers writeData rest)"

text \<open>
  \<open>writeData\<close> is \<open>None\<close> when the argument is absent or not an array. The \<open>switch\<close>
  allocates the buffer and fills the part after the address; the common part is
  written after it, and the CRC appended. The parameters \<open>slaveId\<close> and
  \<open>functionCode\<close> are written \<open>slave\<close> and \<open>fc\<close>, the fields of the response having
  taken the names.
\<close>

definition makeRequest ::
  "int \<Rightarrow> int \<Rightarrow> int \<Rightarrow> int \<Rightarrow> int list option \<Rightarrow> error + Buffer" where
  "makeRequest slave fc address quantity writeData =
     (let slave = js_and slave 0xFF;
          address = js_and address 0xFFFF;
          body =
            (if fc = 0x01 \<or> fc = 0x02 then writeUInt16BE quantity 4 (alloc 6)
             else if fc = 0x03 \<or> fc = 0x04 then writeUInt16BE quantity 4 (alloc 6)
             else if fc = 0x05
               then writeUInt16BE (if quantity \<noteq> 0 then 0xFF00 else 0x0000) 4 (alloc 6)
             else if fc = 0x06 then writeUInt16BE quantity 4 (alloc 6)
             else if fc = 0x0F then
               (case writeData of
                  None \<Rightarrow> Inl V2MODBUS_WRITE_DATA_REQUIRED_COILS
                | Some wd \<Rightarrow>
                    if length wd < 1 \<or> length wd > 1968 then Inl V2MODBUS_COILS_COUNT_INVALID
                    else let quantity = int (length wd);
                             coilBytes = ceil8 quantity
                         in and_then (writeUInt16BE quantity 4 (alloc (7 + nat coilBytes)))
                              (\<lambda>buffer. and_then (writeUInt8 coilBytes 6 buffer)
                              (\<lambda>buffer. Inr (pack_coils wd (nat quantity) buffer))))
             else if fc = 0x10 then
               (case writeData of
                  None \<Rightarrow> Inl V2MODBUS_WRITE_DATA_REQUIRED_REGISTERS
                | Some wd \<Rightarrow>
                    if length wd < 1 \<or> length wd > 123 then Inl V2MODBUS_REGISTERS_COUNT_INVALID
                    else let quantity = int (length wd);
                             registerBytes = quantity * 2
                         in and_then (writeUInt16BE quantity 4 (alloc (7 + nat registerBytes)))
                              (\<lambda>buffer. and_then (writeUInt8 registerBytes 6 buffer)
                              (\<lambda>buffer. write_registers wd [0..<nat quantity] buffer)))
             else Inl V2MODBUS_UNSUPPORTED_FUNCTION_CODE)
      in and_then body (\<lambda>buffer.
         and_then (writeUInt8 slave 0 buffer) (\<lambda>buffer.
         and_then (writeUInt8 fc 1 buffer) (\<lambda>buffer.
         and_then (writeUInt16BE address 2 buffer) addCRC))))"

section \<open>DeviceRTU: the bus controller\<close>

text \<open>
  \<open>shares\<close> is declared with the fields \<open>online\<close> and \<open>process\<close>; the gates write a
  third field, \<open>progress\<close>, which does not exist (\<open>None\<close>) until then.
\<close>

record shares =
  online :: bool
  process :: bool
  progress :: "bool option"

text \<open>What the device does to its surroundings, in order.\<close>

datatype event =
    CanRequest nat
  | Render shares
  | ErrorLog string string

text \<open>
  The device. \<open>queue\<close> is the \<open>Map\<close> in insertion order, each entry the method; the
  \<open>resolve\<close> and \<open>reject\<close> of an entry belong to the promise made when it was
  enqueued, which its key identifies. \<open>offlineTimer\<close> is \<open>None\<close> for the number 0 and
  \<open>Some h\<close> for the handle of a timer. \<open>timers\<close> are the timers of the event loop that
  are armed, each with its handle and delay: the offline callback is the only one the
  device arms. \<open>Provider\<close> and the handles are numbers standing for the objects.
\<close>

record 'm DeviceRTU =
  shares :: shares
  Provider :: "nat option"
  queue :: "(nat \<times> 'm) list"
  queueIndex :: nat
  offlineTimer :: "nat option"
  offTimeout :: nat
  timers :: "(nat \<times> nat) list"
  nextTimer :: nat
  trace :: "event list"

definition render :: "'m DeviceRTU \<Rightarrow> 'm DeviceRTU" where
  "render s = s\<lparr>trace := trace s @ [Render (shares s)]\<rparr>"

definition setTimeout :: "nat \<Rightarrow> 'm DeviceRTU \<Rightarrow> nat \<times> 'm DeviceRTU" where
  "setTimeout delay s =
     (nextTimer s, s\<lparr>timers := timers s @ [(nextTimer s, delay)], nextTimer := nextTimer s + 1\<rparr>)"

definition clearTimeout :: "nat \<Rightarrow> 'm DeviceRTU \<Rightarrow> 'm DeviceRTU" where
  "clearTimeout h s = s\<lparr>timers := AList.delete h (timers s)\<rparr>"

text \<open>The callback given to \<open>setTimeout\<close> in \<open>oGate\<close>, run when timer \<open>h\<close> fires.\<close>

definition offline_callback :: "nat \<Rightarrow> 'm DeviceRTU \<Rightarrow> 'm DeviceRTU" where
  "offline_callback h s =
     (if h \<in> fst ` set (timers s)
      then s\<lparr>timers := AList.delete h (timers s), offlineTimer := None,
             shares := (shares s)\<lparr>online := False\<rparr>\<rparr>
      else s)"

definition iGate :: "'m DeviceRTU \<Rightarrow> 'm DeviceRTU" where
  "iGate s =
     (let s = (case offlineTimer s of Some h \<Rightarrow> clearTimeout h s | None \<Rightarrow> s);
          s = s\<lparr>shares := (shares s)\<lparr>progress := Some True\<rparr>\<rparr>
      in render s)"

definition oGate :: "'m DeviceRTU \<Rightarrow> 'm DeviceRTU" where
  "oGate s =
     (let (h, s) = setTimeout (offTimeout s) s;
          s = s\<lparr>offlineTimer := Some h\<rparr>;
          s = s\<lparr>shares := (shares s)\<lparr>progress := Some False\<rparr>\<rparr>
      in render s)"

subsection \<open>The queue\<close>

definition getQueueIndex :: "'m DeviceRTU \<Rightarrow> nat \<times> 'm DeviceRTU" where
  "getQueueIndex s = (queueIndex s, s\<lparr>queueIndex := queueIndex s + 1\<rparr>)"

text \<open>The result is the key of the new entry, which stands for the promise returned.\<close>

definition actionAddQueue :: "'m \<Rightarrow> 'm DeviceRTU \<Rightarrow> nat \<times> 'm DeviceRTU" where
  "actionAddQueue method s =
     (let (key, s) = getQueueIndex s
      in (key, s\<lparr>queue := AList.update key method (queue s)\<rparr>))"

text \<open>
  A method of the queue is any code with access to the device: \<open>exec method s\<close> is what
  awaiting it does to the device, with the value it returns (\<open>Inr\<close>) or the error it
  throws (\<open>Inl\<close>). The loop of \<open>runQueue\<close> over the snapshot of the keys gives the list
  of the handles it settled: \<open>(key, Inr v)\<close> for \<open>resolve(v)\<close>, \<open>(key, Inl err)\<close> for
  \<open>reject(err)\<close>. Every method is taken to settle: one whose promise stays pending
  would leave \<open>runQueue\<close> pending at that entry.
\<close>

fun run_keys ::
  "('m \<Rightarrow> 'm DeviceRTU \<Rightarrow> (string + 'v) \<times> 'm DeviceRTU) \<Rightarrow> nat list \<Rightarrow> 'm DeviceRTU
     \<Rightarrow> (nat \<times> (string + 'v)) list \<times> 'm DeviceRTU" where
  "run_keys exec [] s = ([], s)"
| "run_keys exec (key # keys) s =
     (case map_of (queue s) key of
        None \<Rightarrow> run_keys exec keys s
      | Some method \<Rightarrow>
          let (r, s) = exec method s;
              s = s\<lparr>queue := AList.delete key (queue s)\<rparr>;
              (settled, s) = run_keys exec keys s
          in ((key, r) # settled, s))"

definition runQueue ::
  "('m \<Rightarrow> 'm DeviceRTU \<Rightarrow> (string + 'v) \<times> 'm DeviceRTU) \<Rightarrow> 'm DeviceRTU
     \<Rightarrow> (nat \<times> (string + 'v)) list \<times> 'm DeviceRTU" where
  "runQueue exec s =
     (if length (queue s) = 0 then ([], s)
      else let keys = map fst (queue s) in run_keys exec keys s)"

subsection \<open>inputBus\<close>

text \<open>
  \<open>update\<close> is the poll routine of the subclass, a parameter like \<open>exec\<close>. The body of the
  \<open>try\<close> comes first; \<open>runQueue\<close> catches the error of every method, so only \<open>update\<close>
  can make the body throw.
\<close>

definition try_body ::
  "('m \<Rightarrow> 'm DeviceRTU \<Rightarrow> (string + 'v) \<times> 'm DeviceRTU)
     \<Rightarrow> ('m DeviceRTU \<Rightarrow> (string + unit) \<times> 'm DeviceRTU)
     \<Rightarrow> 'm DeviceRTU \<Rightarrow> (string + unit) \<times> 'm DeviceRTU" where
  "try_body exec update s =
     (let (settled, s) = runQueue exec s
      in case update s of
           (Inl err, s) \<Rightarrow> (Inl err, s)
         | (Inr u, s) \<Rightarrow> (Inr (), s\<lparr>shares := (shares s)\<lparr>online := True\<rparr>\<rparr>))"

text \<open>
  The \<open>catch\<close> sets \<open>online\<close> to false, logs and throws the error again, so the call of
  \<open>oGate\<close> after the \<open>try\<close> statement is reached only when the body did not throw.
\<close>

definition inputBus ::
  "('m \<Rightarrow> 'm DeviceRTU \<Rightarrow> (string + 'v) \<times> 'm DeviceRTU)
     \<Rightarrow> ('m DeviceRTU \<Rightarrow> (string + unit) \<times> 'm DeviceRTU)
     \<Rightarrow> nat \<Rightarrow> 'm DeviceRTU \<Rightarrow> (string + unit) \<times> 'm DeviceRTU" where
  "inputBus exec update provider s =
     (if process (shares s) then (Inr (), s)
      else let s = s\<lparr>Provider := Some provider\<rparr>;
               s = s\<lparr>trace := trace s @ [CanRequest provider]\<rparr>;
               s = iGate s
           in case try_body exec update s of
                (Inl err, s) \<Rightarrow>
                  let s = s\<lparr>shares := (shares s)\<lparr>online := False\<rparr>\<rparr>;
                      s = s\<lparr>trace := trace s @ [ErrorLog ''Update device error'' err]\<rparr>
                  in (Inl err, s)
              | (Inr u, s) \<Rightarrow> (Inr (), oGate s))"

text \<open>A device as the constructor leaves it, with the \<open>offTimeout\<close> of its options.\<close>

definition new_device :: "nat \<Rightarrow> 'm DeviceRTU" where
  "new_device off =
     \<lparr>shares = \<lparr>online = False, process = False, progress = None\<rparr>,
      Provider = None, queue = [], queueIndex = 1, offlineTimer = None,
      offTimeout = off, timers = [], nextTimer = 1, trace = []\<rparr>"

section \<open>Reference definitions\<close>

subsection \<open>The Modbus CRC16 on 16-bit words\<close>

text \<open>
  The CRC as the specification words it: one shift is a right shift by one, followed by
  an exclusive-or with 0xA001 when the low bit was set; a byte is exclusive-ored into
  the low byte of the running value and eight shifts follow; the seed is 0xFFFF.
\<close>

definition crc16_shift :: "16 word \<Rightarrow> 16 word" where
  "crc16_shift c = (if bit c 0 then drop_bit 1 c XOR 0xA001 else drop_bit 1 c)"

definition crc16_update :: "16 word \<Rightarrow> 8 word \<Rightarrow> 16 word" where
  "crc16_update c b = (crc16_shift ^^ 8) (c XOR ucast b)"

definition crc16_modbus :: "8 word list \<Rightarrow> 16 word" where
  "crc16_modbus bytes = foldl crc16_update 0xFFFF bytes"

subsection \<open>Draining a snapshot of the queue\<close>

text \<open>
  The drain as the specification words it, over the entries of the snapshot themselves:
  each entry in turn is executed once, its handle gets the result or the error,
  whichever it is, the entry is removed, and the drain goes on with the next entry.
\<close>

fun drain_snapshot ::
  "('m \<Rightarrow> 'm DeviceRTU \<Rightarrow> (string + 'v) \<times> 'm DeviceRTU) \<Rightarrow> (nat \<times> 'm) list \<Rightarrow> 'm DeviceRTU
     \<Rightarrow> (nat \<times> (string + 'v)) list \<times> 'm DeviceRTU" where
  "drain_snapshot exec [] s = ([], s)"
| "drain_snapshot exec ((key, method) # rest) s =
     (let (r, s) = exec method s;
          s = s\<lparr>queue := AList.delete key (queue s)\<rparr>;
          (settled, s) = drain_snapshot exec rest s
      in ((key, r) # settled, s))"

text \<open>
  A \<open>Map\<close> holds a key once, and \<open>actionAddQueue\<close> only stores under sequence ids it has
  issued, which are below \<open>queueIndex\<close>.
\<close>

definition queue_wf :: "'m DeviceRTU \<Rightarrow> bool" where
  "queue_wf s \<longleftrightarrow>
     distinct (map fst (queue s)) \<and> (\<forall>k \<in> fst ` set (queue s). k < queueIndex s)"

text \<open>
  The methods touch the queue only by enqueueing: awaiting a method leaves the entries
  under the sequence ids issued so far as they are, and never lowers the counter.
\<close>

definition methods_only_enqueue ::
  "('m \<Rightarrow> 'm DeviceRTU \<Rightarrow> (string + 'v) \<times> 'm DeviceRTU) \<Rightarrow> bool" where
  "methods_only_enqueue exec \<longleftrightarrow>
     (\<forall>method s. queue_wf s \<longrightarrow>
        queue_wf (snd (exec method s))
        \<and> queueIndex s \<le> queueIndex (snd (exec method s))
        \<and> (\<forall>k. k < queueIndex s \<longrightarrow>
              map_of (queue (snd (exec method s))) k = map_of (queue s) k))"

text \<open>
  A weaker discipline: a method may also remove entries. An entry under a sequence id
  issued so far is afterwards either as it was or gone; none is replaced, and none comes
  back once gone.
\<close>

definition methods_keep_or_remove ::
  "('m \<Rightarrow> 'm DeviceRTU \<Rightarrow> (string + 'v) \<times> 'm DeviceRTU) \<Rightarrow> bool" where
  "methods_keep_or_remove exec \<longleftrightarrow>
     (\<forall>method s. queue_wf s \<longrightarrow>
        queue_wf (snd (exec method s))
        \<and> queueIndex s \<le> queueIndex (snd (exec method s))
        \<and> (\<forall>k. k < queueIndex s \<longrightarrow>
              map_of (queue (snd (exec method s))) k = map_of (queue s) k
              \<or> map_of (queue (snd (exec method s))) k = None))"

text \<open>
  The drain over the entries of the snapshot, with the skip: an entry whose key is no
  longer in the queue when its turn comes is passed over, and the drain goes on with
  the next entry; an entry still there is executed once, its handle gets the result or
  the error, and the entry is removed.
\<close>

fun drain_present ::
  "('m \<Rightarrow> 'm DeviceRTU \<Rightarrow> (string + 'v) \<times> 'm DeviceRTU) \<Rightarrow> (nat \<times> 'm) list \<Rightarrow> 'm DeviceRTU
     \<Rightarrow> (nat \<times> (string + 'v)) list \<times> 'm DeviceRTU" where
  "drain_present exec [] s = ([], s)"
| "drain_present exec ((key, method) # rest) s =
     (if key \<in> fst ` set (queue s)
      then let (r, s) = exec method s;
               s = s\<lparr>queue := AList.delete key (queue s)\<rparr>;
               (settled, s) = drain_present exec rest s
           in ((key, r) # settled, s)
      else drain_present exec rest s)"

subsection \<open>Example devices\<close>

text \<open>
  A method of the examples is a pair: the value it returns or the error it throws, and
  whether it enqueues a follow-up action before that.
\<close>

type_synonym demo_method = "(string + nat) \<times> bool"

definition demo_exec ::
  "demo_method \<Rightarrow> demo_method DeviceRTU \<Rightarrow> (string + nat) \<times> demo_method DeviceRTU" where
  "demo_exec method s =
     (fst method, if snd method then snd (actionAddQueue (Inr 0, False) s) else s)"

text \<open>Three actions enqueued on a new device; the second one throws.\<close>

definition demo_queued :: "demo_method DeviceRTU" where
  "demo_queued =
     snd (actionAddQueue (Inr 30, False)
       (snd (actionAddQueue (Inl ''write failed'', True)
         (snd (actionAddQueue (Inr 10, False) (new_device 30000))))))"

text \<open>Poll routines: one that succeeds and one that fails.\<close>

definition update_ok :: "demo_method DeviceRTU \<Rightarrow> (string + unit) \<times> demo_method DeviceRTU" where
  "update_ok s = (Inr (), s)"

definition update_fails :: "demo_method DeviceRTU \<Rightarrow> (string + unit) \<times> demo_method DeviceRTU" where
  "update_fails s = (Inl ''request timeout'', s)"

text \<open>
  Methods that may also remove an entry, as code of a subclass can with
  \<open>this.queue.delete(key)\<close>: a method returns or throws after leaving the queue alone,
  enqueueing a follow-up action, or removing the entry under a key.
\<close>

datatype queue_action = Leaves | Enqueues | Removes nat

type_synonym acting_method = "(string + nat) \<times> queue_action"

definition acting_exec ::
  "acting_method \<Rightarrow> acting_method DeviceRTU \<Rightarrow> (string + nat) \<times> acting_method DeviceRTU" where
  "acting_exec method s =
     (fst method,
      case snd method of
        Leaves \<Rightarrow> s
      | Enqueues \<Rightarrow> snd (actionAddQueue (Inr 0, Leaves) s)
      | Removes key \<Rightarrow> s\<lparr>queue := AList.delete key (queue s)\<rparr>)"

text \<open>
  Four actions enqueued on a new device: the first removes the second from the queue,
  the third throws after enqueueing a follow-up.
\<close>

definition acting_queued :: "acting_method DeviceRTU" where
  "acting_queued =
     snd (actionAddQueue (Inr 40, Leaves)
       (snd (actionAddQueue (Inl ''write failed'', Enqueues)
         (snd (actionAddQueue (Inr 20, Leaves)
           (snd (actionAddQueue (Inr 10, Removes 2) (new_device 30000))))))))"

subsection \<open>Packing coils\<close>

text \<open>
  The payload of a write-multiple-coils request as the specification words it: one bit
  per value, the first value in the lowest bit, eight values to a byte, over
  \<open>ceil(n / 8)\<close> bytes.
\<close>

definition coil_byte :: "int list \<Rightarrow> nat \<Rightarrow> 8 word" where
  "coil_byte vs j = horner_sum of_bool 2 (take 8 (drop (8 * j) (map (\<lambda>v. v \<noteq> 0) vs)))"

definition coil_bytes :: "int list \<Rightarrow> 8 word list" where
  "coil_bytes vs = map (coil_byte vs) [0..<(length vs + 7) div 8]"

section \<open>Proofs\<close>

subsection \<open>JavaScript operators on small numbers\<close>

lemma sint32_small: "0 \<le> a \<Longrightarrow> a < 2 ^ 31 \<Longrightarrow> sint (word_of_int a :: 32 word) = a"
  by (simp add: sint_sbintrunc' signed_take_bit_int_eq_self)

lemma js_xor_small:
  "0 \<le> a \<Longrightarrow> a < 2 ^ 31 \<Longrightarrow> 0 \<le> b \<Longrightarrow> b < 2 ^ 31 \<Longrightarrow> js_xor a b = a XOR b"
  unfolding js_xor_def ToInt32_def word_wi_log_defs
  using XOR_upper [of a 31 b] by (intro sint32_small) simp_all

lemma js_and_small:
  "0 \<le> a \<Longrightarrow> a < 2 ^ 31 \<Longrightarrow> 0 \<le> b \<Longrightarrow> b < 2 ^ 31 \<Longrightarrow> js_and a b = a AND b"
  unfolding js_and_def ToInt32_def word_wi_log_defs
  by (rule sint32_small) simp_all

lemma js_shr_small: "0 \<le> a \<Longrightarrow> a < 2 ^ 31 \<Longrightarrow> js_shr a 1 = drop_bit 1 a"
  unfolding js_shr_def ToInt32_def
  by (simp add: sint_signed_drop_bit_eq sint32_small)

lemma uint16_small: "uint (c :: 16 word) < 2 ^ 31"
  using uint_lt2p [of c] by simp

subsection \<open>calculateCRC16 against the 16-bit reference\<close>

lemma low_bit_sim: "js_and (uint (c :: 16 word)) 1 \<noteq> 0 \<longleftrightarrow> bit c 0"
proof -
  have "js_and (uint c) 1 = uint c AND 1"
    using uint16_small [of c] by (intro js_and_small) simp_all
  then have "js_and (uint c) 1 = uint (c AND 1)"
    by (simp add: uint_and)
  moreover have "c AND 1 \<noteq> 0 \<longleftrightarrow> bit c 0"
    by (simp add: and_one_eq bit_0 even_iff_mod_2_eq_zero)
  ultimately show ?thesis
    by (simp add: unsigned_eq_0_iff)
qed

lemma shr_sim: "js_shr (uint (c :: 16 word)) 1 = uint (drop_bit 1 c)"
proof -
  have "js_shr (uint c) 1 = drop_bit 1 (uint c)"
    using uint16_small [of c] by (intro js_shr_small) simp_all
  moreover have "uint c mod 65536 = uint c"
    using uint_lt2p [of c] by simp
  ultimately show ?thesis
    by (simp add: unsigned_drop_bit_eq take_bit_eq_mod)
qed

lemma xor_sim: "js_xor (uint (c :: 16 word)) (uint (d :: 16 word)) = uint (c XOR d)"
  using uint16_small [of c] uint16_small [of d]
  by (simp add: js_xor_small uint_xor)

lemma shift_sim:
  "(if js_and (uint c) 1 \<noteq> 0 then js_xor (js_shr (uint c) 1) 0xA001 else js_shr (uint c) 1)
     = uint (crc16_shift c)"
proof -
  have "js_xor (uint (drop_bit 1 c)) 0xA001 = uint (drop_bit 1 c XOR 0xA001)"
    using xor_sim [of "drop_bit 1 c" "0xA001"] by simp
  then show ?thesis
    by (simp add: low_bit_sim shr_sim crc16_shift_def)
qed

lemma crc_bits_sim: "crc_bits j (uint c) = uint ((crc16_shift ^^ j) c)"
proof (induction j arbitrary: c)
  case 0
  show ?case by simp
next
  case (Suc j)
  have "crc_bits (Suc j) (uint c) = crc_bits j (uint (crc16_shift c))"
    by (simp only: crc_bits.simps shift_sim)
  also have "\<dots> = uint ((crc16_shift ^^ j) (crc16_shift c))"
    by (rule Suc.IH)
  finally show ?case
    by (simp add: funpow_swap1)
qed

lemma crc_byte_sim: "crc_byte (uint c) b = uint (crc16_update c b)"
proof -
  have "uint b = uint (ucast b :: 16 word)"
    by (simp add: uint_up_ucast is_up)
  then have "js_xor (uint c) (uint b) = uint (c XOR ucast b)"
    by (simp add: xor_sim)
  then show ?thesis
    by (simp add: crc_byte_def crc16_update_def crc_bits_sim)
qed

lemma foldl_crc_sim: "foldl crc_byte (uint c) buffer = uint (foldl crc16_update c buffer)"
  by (induction buffer arbitrary: c) (simp_all add: crc_byte_sim)

lemma calculateCRC16_sim: "calculateCRC16 buffer = uint (crc16_modbus buffer)"
  using foldl_crc_sim [of "0xFFFF" buffer]
  by (simp add: calculateCRC16_def crc16_modbus_def)

lemma calculateCRC16_range: "0 \<le> calculateCRC16 b \<and> calculateCRC16 b \<le> 65535"
  using uint_lt2p [of "crc16_modbus b"] by (simp add: calculateCRC16_sim)

text \<open>
  C9, as amended. \<open>calculateCRC16\<close>, computed with the 32-bit operators of JavaScript,
  is the Modbus CRC16 of the reference definition on every buffer; on the bytes
  01 03 00 00 00 02 it is 0x0BC4, which goes on the wire low byte first as C4 0B.
\<close>

theorem calculateCRC16_reference:
  "calculateCRC16 buffer = uint (crc16_modbus buffer)
   \<and> calculateCRC16 [0x01, 0x03, 0x00, 0x00, 0x00, 0x02] = 0x0BC4"
proof
  show "calculateCRC16 buffer = uint (crc16_modbus buffer)"
    by (rule calculateCRC16_sim)
  show "calculateCRC16 [0x01, 0x03, 0x00, 0x00, 0x00, 0x02] = 0x0BC4"
    by code_simp
qed

text \<open>C9, as stated, fails on its example: the value is not 0xC40B.\<close>

theorem calculateCRC16_example_counterexample:
  "calculateCRC16 [0x01, 0x03, 0x00, 0x00, 0x00, 0x02] \<noteq> 0xC40B"
  by code_simp

subsection \<open>addCRC and verifyCRC\<close>

lemma uint8_of_small: "0 \<le> v \<Longrightarrow> v < 256 \<Longrightarrow> uint (word_of_int v :: 8 word) = v"
  by (simp add: uint_word_of_int)

lemma writeUInt16LE_alloc2:
  assumes "0 \<le> v" "v \<le> 65535"
  shows "writeUInt16LE v 0 (alloc 2) = Inr [word_of_int (v mod 256), word_of_int (v div 256)]"
  using assms by (simp add: writeUInt16LE_def alloc_def numeral_2_eq_2)

lemma subarray_strip2: "subarray 0 (- 2) (b @ [x, y]) = b"
  by (simp add: subarray_def)

lemma readUInt16LE_tail:
  "readUInt16LE (length b) (b @ [x, y]) = Inr (uint x + 256 * uint y)"
  by (simp add: readUInt16LE_def nth_append)

lemma addCRC_eq:
  "addCRC b =
     Inr (b @ [word_of_int (calculateCRC16 b mod 256), word_of_int (calculateCRC16 b div 256)])"
  using calculateCRC16_range [of b] by (simp add: addCRC_def writeUInt16LE_alloc2 and_then_def)

lemma verifyCRC_appended:
  assumes "0 \<le> v" "v \<le> 65535"
  shows "verifyCRC (b @ [word_of_int (v mod 256), word_of_int (v div 256)])
           = Inr (v = calculateCRC16 b)"
proof -
  have lo: "uint (word_of_int (v mod 256) :: 8 word) = v mod 256"
    by (simp add: uint8_of_small)
  have hi: "uint (word_of_int (v div 256) :: 8 word) = v div 256"
    using assms by (simp add: uint8_of_small)
  show ?thesis
    by (simp add: verifyCRC_def subarray_strip2 readUInt16LE_tail and_then_def lo hi)
qed

text \<open>
  C2. For every buffer \<open>b\<close>, \<open>addCRC b\<close> returns a buffer (the CRC always fits the two
  bytes, so the write never raises), and \<open>verifyCRC\<close> of that buffer returns true.
\<close>

theorem verifyCRC_addCRC: "and_then (addCRC b) verifyCRC = Inr True"
  using calculateCRC16_range [of b] by (simp add: addCRC_eq and_then_def verifyCRC_appended)

subsection \<open>isCompletePacket\<close>

lemma readUInt8_in_range: "off < length b \<Longrightarrow> readUInt8 off b = Inr (uint (b ! off))"
  by (simp add: readUInt8_def)

text \<open>
  C3, as amended. \<open>isCompletePacket\<close> never raises and returns false on a buffer
  shorter than 4 bytes; on a read-class buffer (byte 1 in 0x01..0x04) it returns true
  exactly when the buffer is longer than 5 bytes and its length is the byte count
  (byte 2) plus 5, so it is false on every buffer shorter than that; on every other
  function code it returns true exactly when the length is 8.
\<close>

theorem isCompletePacket_complete:
  "isCompletePacket buffer =
     Inr (if length buffer < 4 then False
          else if uint (buffer ! 1) \<in> {0x01, 0x02, 0x03, 0x04}
            then 5 < length buffer \<and> int (length buffer) = uint (buffer ! 2) + 5
          else length buffer = 8)"
  by (simp add: isCompletePacket_def readUInt8_in_range and_then_def)

text \<open>
  C3, as stated, fails on a read-class buffer whose byte count is 0: at 5 bytes the
  length equals the byte count plus 5, and the result is false.
\<close>

theorem isCompletePacket_counterexample:
  "int (length [0x01, 0x03, 0x00, 0x20, 0xF0 :: 8 word])
     = uint ([0x01, 0x03, 0x00, 0x20, 0xF0 :: 8 word] ! 2) + 5
   \<and> isCompletePacket [0x01, 0x03, 0x00, 0x20, 0xF0] = Inr False"
  by (simp add: isCompletePacket_def readUInt8_def and_then_def)

lemma readUInt8_header:
  assumes "4 \<le> length b"
  shows "readUInt8 0 b = Inr (uint (b ! 0))"
    and "readUInt8 (Suc 0) b = Inr (uint (b ! Suc 0))"
    and "readUInt8 2 b = Inr (uint (b ! 2))"
  using assms by (simp_all add: readUInt8_def)

subsection \<open>parseResponse\<close>

lemma uint8_small: "uint (x :: 8 word) < 2 ^ 31"
  using uint_lt2p [of x] by simp

lemma js_and_byte: "js_and (uint (x :: 8 word)) (uint (y :: 8 word)) = uint (x AND y)"
  using uint8_small [of x] uint8_small [of y]
  by (simp add: js_and_small uint_and)

lemma high_bit_js: "js_and (uint (x :: 8 word)) 0x80 \<noteq> 0 \<longleftrightarrow> bit x 7"
proof -
  have "js_and (uint x) 0x80 = uint (x AND 0x80)"
    using js_and_byte [of x "0x80"] by simp
  moreover have "x AND 0x80 = 0 \<longleftrightarrow> \<not> bit x 7"
    using and_exp_eq_0_iff_not_bit [of x 7] by simp
  ultimately show ?thesis
    by (simp add: unsigned_eq_0_iff)
qed

lemma strip_bit_js: "js_and (uint (x :: 8 word)) 0x7F = uint (x AND 0x7F)"
  using js_and_byte [of x "0x7F"] by simp

lemma verifyCRC_total: "verifyCRC b = Inr True \<or> verifyCRC b = Inr False"
  by (cases "length b < 2") (simp_all add: verifyCRC_def readUInt16LE_def and_then_def)

lemma subarray_payload:
  "2 \<le> length b \<Longrightarrow> subarray (int k) (- 2) b = take (length b - 2 - k) (drop k b)"
  by (auto simp add: subarray_def Let_def min_def nat_diff_distrib')

lemma parseResponse_exception:
  assumes "4 \<le> length b" "verifyCRC b = Inr True" "bit (b ! 1) 7"
  shows "parseResponse b =
           Inr \<lparr>slaveId = uint (b ! 0), functionCode = uint (b ! 1 AND 0x7F), byteCount = 0,
                data = [], exceptionCode = Some (uint (b ! 2))\<rparr>"
  using assms
  by (simp add: parseResponse_def readUInt8_header and_then_def high_bit_js strip_bit_js
      alloc_def)

lemma parseResponse_normal:
  assumes "4 \<le> length b" "verifyCRC b = Inr True" "\<not> bit (b ! 1) 7"
  shows "parseResponse b =
           Inr (if uint (b ! 1) \<in> {0x01, 0x02, 0x03, 0x04}
                then \<lparr>slaveId = uint (b ! 0), functionCode = uint (b ! 1),
                      byteCount = uint (b ! 2),
                      data = take (length b - 2 - 3) (drop 3 b), exceptionCode = None\<rparr>
                else \<lparr>slaveId = uint (b ! 0), functionCode = uint (b ! 1),
                      byteCount = int (length b) - 4,
                      data = take (length b - 2 - 2) (drop 2 b), exceptionCode = None\<rparr>)"
proof -
  have s2: "subarray 2 (- 2) b = take (length b - 2 - 2) (drop 2 b)"
    using assms(1) subarray_payload [of b 2] by simp
  have s3: "subarray 3 (- 2) b = take (length b - 2 - 3) (drop 3 b)"
    using assms(1) subarray_payload [of b 3] by simp
  show ?thesis
    using assms
    by (simp add: parseResponse_def readUInt8_header and_then_def high_bit_js s2 s3)
qed

lemma parseResponse_short: "length b < 4 \<Longrightarrow> parseResponse b = Inl V2MODBUS_PACKET_TOO_SHORT"
  by (simp add: parseResponse_def)

lemma parseResponse_bad_crc:
  "4 \<le> length b \<Longrightarrow> verifyCRC b = Inr False \<Longrightarrow> parseResponse b = Inl V2MODBUS_CRC_CHECK_FAILED"
  by (simp add: parseResponse_def and_then_def)

lemma parseResponse_good_crc:
  assumes "4 \<le> length b" "verifyCRC b = Inr True"
  shows "\<exists>r. parseResponse b = Inr r"
proof (cases "bit (b ! 1) 7")
  case True
  with assms show ?thesis by (simp add: parseResponse_exception)
next
  case False
  with assms show ?thesis by (simp add: parseResponse_normal)
qed

text \<open>
  C4. \<open>parseResponse\<close> fails with PacketTooShort exactly on a buffer under 4 bytes;
  on a longer buffer it fails with CrcCheckFailed exactly when \<open>verifyCRC\<close> is false;
  on a longer buffer with a valid CRC and the high bit of byte 1 set, it returns the
  response with the high bit stripped from the function code, the exception code of
  byte 2, byte count 0 and an empty payload.
\<close>

theorem parseResponse_errors:
  "(parseResponse b = Inl V2MODBUS_PACKET_TOO_SHORT \<longleftrightarrow> length b < 4)
   \<and> (4 \<le> length b \<longrightarrow>
        (parseResponse b = Inl V2MODBUS_CRC_CHECK_FAILED \<longleftrightarrow> verifyCRC b = Inr False))
   \<and> (4 \<le> length b \<and> verifyCRC b = Inr True \<and> bit (b ! 1) 7 \<longrightarrow>
        parseResponse b =
          Inr \<lparr>slaveId = uint (b ! 0), functionCode = uint (b ! 1 AND 0x7F), byteCount = 0,
               data = [], exceptionCode = Some (uint (b ! 2))\<rparr>)"
proof (intro conjI impI)
  show "parseResponse b = Inl V2MODBUS_PACKET_TOO_SHORT \<longleftrightarrow> length b < 4"
  proof (cases "length b < 4")
    case True
    then show ?thesis by (simp add: parseResponse_short)
  next
    case False
    then have long: "4 \<le> length b" by simp
    from verifyCRC_total [of b] show ?thesis
    proof
      assume "verifyCRC b = Inr True"
      with long parseResponse_good_crc [of b] False show ?thesis by auto
    next
      assume "verifyCRC b = Inr False"
      with long False show ?thesis by (simp add: parseResponse_bad_crc)
    qed
  qed
next
  assume long: "4 \<le> length b"
  from verifyCRC_total [of b]
  show "parseResponse b = Inl V2MODBUS_CRC_CHECK_FAILED \<longleftrightarrow> verifyCRC b = Inr False"
  proof
    assume "verifyCRC b = Inr True"
    with long parseResponse_good_crc [of b] show ?thesis by auto
  next
    assume "verifyCRC b = Inr False"
    with long show ?thesis by (simp add: parseResponse_bad_crc)
  qed
next
  assume "4 \<le> length b \<and> verifyCRC b = Inr True \<and> bit (b ! 1) 7"
  then show "parseResponse b =
          Inr \<lparr>slaveId = uint (b ! 0), functionCode = uint (b ! 1 AND 0x7F), byteCount = 0,
               data = [], exceptionCode = Some (uint (b ! 2))\<rparr>"
    by (simp add: parseResponse_exception)
qed

lemma verifyCRC_exception_frame: "verifyCRC [0x01, 0x83, 0x02, 0xC0, 0xF1] = Inr True"
  by code_simp

theorem parseResponse_errors_witness:
  "4 \<le> length [0x01, 0x83, 0x02, 0xC0, 0xF1 :: 8 word]
   \<and> verifyCRC [0x01, 0x83, 0x02, 0xC0, 0xF1] = Inr True
   \<and> bit ([0x01, 0x83, 0x02, 0xC0, 0xF1 :: 8 word] ! 1) 7
   \<and> parseResponse [0x01, 0x83, 0x02, 0xC0, 0xF1] =
       Inr \<lparr>slaveId = 1, functionCode = 3, byteCount = 0, data = [],
            exceptionCode = Some 2\<rparr>
   \<and> parseResponse [0x01, 0x83, 0x02, 0xC0, 0xF1] \<noteq> Inl V2MODBUS_CRC_CHECK_FAILED
   \<and> parseResponse [0x01, 0x83, 0x02] = Inl V2MODBUS_PACKET_TOO_SHORT"
proof -
  let ?b = "[0x01, 0x83, 0x02, 0xC0, 0xF1 :: 8 word]"
  note inst = parseResponse_errors [of ?b]
  have len: "4 \<le> length ?b"
    by simp
  have b7: "bit (?b ! 1) 7"
    by code_simp
  note crc = verifyCRC_exception_frame
  have "parseResponse ?b =
          Inr \<lparr>slaveId = uint (?b ! 0), functionCode = uint (?b ! 1 AND 0x7F), byteCount = 0,
               data = [], exceptionCode = Some (uint (?b ! 2))\<rparr>"
    by (rule inst [THEN conjunct2, THEN conjunct2, THEN mp]) (intro conjI len crc b7)
  then have r: "parseResponse ?b =
       Inr \<lparr>slaveId = 1, functionCode = 3, byteCount = 0, data = [], exceptionCode = Some 2\<rparr>"
    by simp
  have "parseResponse ?b = Inl V2MODBUS_CRC_CHECK_FAILED \<longleftrightarrow> verifyCRC ?b = Inr False"
    by (rule inst [THEN conjunct2, THEN conjunct1, THEN mp]) (rule len)
  then have c: "parseResponse ?b \<noteq> Inl V2MODBUS_CRC_CHECK_FAILED"
    by (simp add: crc)
  have "parseResponse [0x01, 0x83, 0x02] = Inl V2MODBUS_PACKET_TOO_SHORT
          \<longleftrightarrow> length [0x01, 0x83, 0x02 :: 8 word] < 4"
    by (rule parseResponse_errors [of "[0x01, 0x83, 0x02]", THEN conjunct1])
  then have s: "parseResponse [0x01, 0x83, 0x02] = Inl V2MODBUS_PACKET_TOO_SHORT"
    by simp
  from len crc b7 r c s show ?thesis
    by (intro conjI)
qed

lemma verifyCRC_read_frame:
  "verifyCRC [0x01, 0x03, 0x04, 0x00, 0x0A, 0x00, 0x14, 0xDA, 0x3E] = Inr True"
  by code_simp

text \<open>
  C5, as amended. For every frame of at least 4 bytes with a valid CRC and the high bit
  of byte 1 clear, \<open>parseResponse\<close> returns, for the four read-class function codes,
  the byte count of byte 2 and the payload \<open>bytes[3 .. length-2]\<close>, and for every other
  function code the byte count \<open>length - 4\<close> and the payload \<open>bytes[2 .. length-2]\<close>.
  The frame 01 03 04 00 0A 00 14 with its CRC, DA 3E, yields slaveId 1, functionCode 3,
  byteCount 4 and the payload 00 0A 00 14.
\<close>

theorem parseResponse_payload:
  "(4 \<le> length b \<and> verifyCRC b = Inr True \<and> \<not> bit (b ! 1) 7 \<longrightarrow>
      parseResponse b =
        Inr (if uint (b ! 1) \<in> {0x01, 0x02, 0x03, 0x04}
             then \<lparr>slaveId = uint (b ! 0), functionCode = uint (b ! 1),
                   byteCount = uint (b ! 2),
                   data = take (length b - 2 - 3) (drop 3 b), exceptionCode = None\<rparr>
             else \<lparr>slaveId = uint (b ! 0), functionCode = uint (b ! 1),
                   byteCount = int (length b) - 4,
                   data = take (length b - 2 - 2) (drop 2 b), exceptionCode = None\<rparr>))
   \<and> parseResponse [0x01, 0x03, 0x04, 0x00, 0x0A, 0x00, 0x14, 0xDA, 0x3E] =
        Inr \<lparr>slaveId = 1, functionCode = 3, byteCount = 4,
             data = [0x00, 0x0A, 0x00, 0x14], exceptionCode = None\<rparr>"
proof (intro conjI impI)
  assume "4 \<le> length b \<and> verifyCRC b = Inr True \<and> \<not> bit (b ! 1) 7"
  then show "parseResponse b =
        Inr (if uint (b ! 1) \<in> {0x01, 0x02, 0x03, 0x04}
             then \<lparr>slaveId = uint (b ! 0), functionCode = uint (b ! 1),
                   byteCount = uint (b ! 2),
                   data = take (length b - 2 - 3) (drop 3 b), exceptionCode = None\<rparr>
             else \<lparr>slaveId = uint (b ! 0), functionCode = uint (b ! 1),
                   byteCount = int (length b) - 4,
                   data = take (length b - 2 - 2) (drop 2 b), exceptionCode = None\<rparr>)"
    using parseResponse_normal [of b] by blast
next
  let ?b = "[0x01, 0x03, 0x04, 0x00, 0x0A, 0x00, 0x14, 0xDA, 0x3E :: 8 word]"
  have "\<not> bit (?b ! 1) 7"
    by code_simp
  then have "parseResponse ?b =
           Inr (if uint (?b ! 1) \<in> {0x01, 0x02, 0x03, 0x04}
                then \<lparr>slaveId = uint (?b ! 0), functionCode = uint (?b ! 1),
                      byteCount = uint (?b ! 2),
                      data = take (length ?b - 2 - 3) (drop 3 ?b), exceptionCode = None\<rparr>
                else \<lparr>slaveId = uint (?b ! 0), functionCode = uint (?b ! 1),
                      byteCount = int (length ?b) - 4,
                      data = take (length ?b - 2 - 2) (drop 2 ?b), exceptionCode = None\<rparr>)"
    by (intro parseResponse_normal verifyCRC_read_frame) simp
  then show "parseResponse ?b =
        Inr \<lparr>slaveId = 1, functionCode = 3, byteCount = 4,
             data = [0x00, 0x0A, 0x00, 0x14], exceptionCode = None\<rparr>"
    by simp
qed

lemma verifyCRC_echo_frame:
  "verifyCRC [0x01, 0x06, 0x01, 0x00, 0x12, 0x34, 0x85, 0x41] = Inr True"
  by code_simp

theorem parseResponse_payload_witness:
  "4 \<le> length [0x01, 0x06, 0x01, 0x00, 0x12, 0x34, 0x85, 0x41 :: 8 word]
   \<and> verifyCRC [0x01, 0x06, 0x01, 0x00, 0x12, 0x34, 0x85, 0x41] = Inr True
   \<and> \<not> bit ([0x01, 0x06, 0x01, 0x00, 0x12, 0x34, 0x85, 0x41 :: 8 word] ! 1) 7
   \<and> parseResponse [0x01, 0x06, 0x01, 0x00, 0x12, 0x34, 0x85, 0x41] =
        Inr \<lparr>slaveId = 1, functionCode = 6, byteCount = 4,
             data = [0x01, 0x00, 0x12, 0x34], exceptionCode = None\<rparr>"
proof -
  let ?b = "[0x01, 0x06, 0x01, 0x00, 0x12, 0x34, 0x85, 0x41 :: 8 word]"
  have len: "4 \<le> length ?b"
    by simp
  have b7: "\<not> bit (?b ! 1) 7"
    by code_simp
  note crc = verifyCRC_echo_frame
  have "parseResponse ?b =
        Inr (if uint (?b ! 1) \<in> {0x01, 0x02, 0x03, 0x04}
             then \<lparr>slaveId = uint (?b ! 0), functionCode = uint (?b ! 1),
                   byteCount = uint (?b ! 2),
                   data = take (length ?b - 2 - 3) (drop 3 ?b), exceptionCode = None\<rparr>
             else \<lparr>slaveId = uint (?b ! 0), functionCode = uint (?b ! 1),
                   byteCount = int (length ?b) - 4,
                   data = take (length ?b - 2 - 2) (drop 2 ?b), exceptionCode = None\<rparr>)"
    by (rule parseResponse_payload [of ?b, THEN conjunct1, THEN mp]) (intro conjI len crc b7)
  then have r: "parseResponse ?b =
        Inr \<lparr>slaveId = 1, functionCode = 6, byteCount = 4,
             data = [0x01, 0x00, 0x12, 0x34], exceptionCode = None\<rparr>"
    by simp
  from len crc b7 r show ?thesis
    by (intro conjI)
qed

text \<open>
  C5, as stated, fails on its example: the last two bytes of the frame, 4B 08, are not
  the CRC of the bytes before them, and \<open>parseResponse\<close> fails with CrcCheckFailed.
\<close>

theorem parseResponse_example_counterexample:
  "parseResponse [0x01, 0x03, 0x04, 0x00, 0x0A, 0x00, 0x14, 0x4B, 0x08]
     = Inl V2MODBUS_CRC_CHECK_FAILED"
proof -
  have "verifyCRC [0x01, 0x03, 0x04, 0x00, 0x0A, 0x00, 0x14, 0x4B, 0x08] = Inr False"
    by code_simp
  then show ?thesis
    by (simp add: parseResponse_bad_crc)
qed

lemma verifyCRC_truncated_frame:
  "verifyCRC [0x01, 0x03, 0x04, 0x00, 0x0A, 0xD8, 0x42] = Inr True"
  by code_simp

text \<open>
  C10. There is a read-class frame with a valid CRC and no exception bit that
  \<open>parseResponse\<close> accepts although the byte count it reports (byte 2 of the frame)
  is not the length of the payload it returns, which is the frame's length minus 5:
  01 03 04 00 0A D8 42 announces 4 bytes and carries 2.
\<close>

theorem parseResponse_unchecked_byteCount:
  "\<exists>b r. 4 \<le> length b \<and> verifyCRC b = Inr True \<and> \<not> bit (b ! 1) 7
      \<and> uint (b ! 1) \<in> {0x01, 0x02, 0x03, 0x04}
      \<and> parseResponse b = Inr r
      \<and> byteCount r = uint (b ! 2)
      \<and> int (length (data r)) = int (length b) - 5
      \<and> byteCount r \<noteq> int (length (data r))"
proof -
  let ?b = "[0x01, 0x03, 0x04, 0x00, 0x0A, 0xD8, 0x42 :: 8 word]"
  let ?r = "\<lparr>slaveId = 1, functionCode = 3, byteCount = 4,
             data = [0x00, 0x0A :: 8 word], exceptionCode = None\<rparr>"
  have b7: "\<not> bit (?b ! 1) 7"
    by code_simp
  then have "parseResponse ?b =
           Inr (if uint (?b ! 1) \<in> {0x01, 0x02, 0x03, 0x04}
                then \<lparr>slaveId = uint (?b ! 0), functionCode = uint (?b ! 1),
                      byteCount = uint (?b ! 2),
                      data = take (length ?b - 2 - 3) (drop 3 ?b), exceptionCode = None\<rparr>
                else \<lparr>slaveId = uint (?b ! 0), functionCode = uint (?b ! 1),
                      byteCount = int (length ?b) - 4,
                      data = take (length ?b - 2 - 2) (drop 2 ?b), exceptionCode = None\<rparr>)"
    by (intro parseResponse_normal verifyCRC_truncated_frame) simp
  then have r: "parseResponse ?b = Inr ?r"
    by simp
  have "4 \<le> length ?b \<and> verifyCRC ?b = Inr True \<and> \<not> bit (?b ! 1) 7
      \<and> uint (?b ! 1) \<in> {0x01, 0x02, 0x03, 0x04}
      \<and> parseResponse ?b = Inr ?r
      \<and> byteCount ?r = uint (?b ! 2)
      \<and> int (length (data ?r)) = int (length ?b) - 5
      \<and> byteCount ?r \<noteq> int (length (data ?r))"
    using b7 r verifyCRC_truncated_frame by simp
  then show ?thesis
    by blast
qed

subsection \<open>runQueue\<close>

lemma queue_wf_delete:
  assumes "queue_wf s"
  shows "queue_wf (s\<lparr>queue := AList.delete key (queue s)\<rparr>)"
proof -
  have "distinct (map fst (AList.delete key (queue s)))"
    using assms by (simp add: queue_wf_def distinct_delete)
  moreover have "k < queueIndex s" if "k \<in> fst ` set (AList.delete key (queue s))" for k
    using that dom_delete_subset [of key "queue s"] assms unfolding queue_wf_def by blast
  ultimately show ?thesis
    by (simp add: queue_wf_def)
qed

lemma methods_only_enqueueD:
  assumes "methods_only_enqueue exec" "queue_wf s" "exec meth s = (r, s')"
  shows "queue_wf s'" 
    and "queueIndex s \<le> queueIndex s'"
    and "k < queueIndex s \<Longrightarrow> map_of (queue s') k = map_of (queue s) k"
  using assms unfolding methods_only_enqueue_def by (metis snd_conv)+

lemma queue_wf_key_less: "queue_wf s \<Longrightarrow> map_of (queue s) k = Some m \<Longrightarrow> k < queueIndex s"
  by (auto simp add: queue_wf_def dest!: map_of_SomeD) 

lemma run_keys_drain:
  assumes "methods_only_enqueue exec"
  shows "queue_wf s \<Longrightarrow> distinct (map fst es)
    \<Longrightarrow> (\<And>k m. (k, m) \<in> set es \<Longrightarrow> map_of (queue s) k = Some m)
    \<Longrightarrow> run_keys exec (map fst es) s = drain_snapshot exec es s"
proof (induction es arbitrary: s)
  case Nil
  show ?case by simp
next
  case (Cons e es)
  obtain key meth where e: "e = (key, meth)"
    by (cases e)
  have here: "map_of (queue s) key = Some meth"
    using Cons.prems(3) [of key meth] e by simp
  obtain r s1 where ex: "exec meth s = (r, s1)"
    by (cases "exec meth s")
  let ?s2 = "s1\<lparr>queue := AList.delete key (queue s1)\<rparr>"
  have wf1: "queue_wf s1"
    using methods_only_enqueueD(1) [OF assms Cons.prems(1) ex] .
  have wf2: "queue_wf ?s2"
    using wf1 by (rule queue_wf_delete)
  have rest: "map_of (queue ?s2) k = Some m" if km: "(k, m) \<in> set es" for k m
  proof -
    have before: "map_of (queue s) k = Some m"
      using Cons.prems(3) [of k m] km by simp
    have "k \<noteq> key"
      using Cons.prems(2) km e by (auto simp add: image_iff)
    moreover have "map_of (queue s1) k = map_of (queue s) k"
      using methods_only_enqueueD(3) [OF assms Cons.prems(1) ex]
        queue_wf_key_less [OF Cons.prems(1) before] .
    ultimately show ?thesis
      using before by simp
  qed
  have "run_keys exec (map fst es) ?s2 = drain_snapshot exec es ?s2"
    using Cons.prems(2) by (intro Cons.IH wf2 rest) simp_all
  then show ?case
    by (simp add: e here ex)
qed

lemma drain_snapshot_keys: "map fst (fst (drain_snapshot exec es s)) = map fst es"
proof (induction es arbitrary: s)
  case Nil
  show ?case by simp
next
  case (Cons e es)
  obtain key meth where e: "e = (key, meth)"
    by (cases e)
  obtain r s1 where ex: "exec meth s = (r, s1)"
    by (cases "exec meth s")
  let ?s2 = "s1\<lparr>queue := AList.delete key (queue s1)\<rparr>"
  obtain settled s3 where d: "drain_snapshot exec es ?s2 = (settled, s3)"
    by (cases "drain_snapshot exec es ?s2")
  have "map fst settled = map fst es"
    using Cons.IH [of ?s2] d by simp
  then show ?case
    by (simp add: e ex d)
qed

lemma drain_snapshot_removes:
  assumes "methods_only_enqueue exec"
  shows "queue_wf s \<Longrightarrow> n \<le> queueIndex s \<Longrightarrow> k < n
    \<Longrightarrow> map_of (queue (snd (drain_snapshot exec es s))) k
          = (if k \<in> fst ` set es then None else map_of (queue s) k)"
proof (induction es arbitrary: s)
  case Nil
  show ?case by simp
next
  case (Cons e es)
  obtain key meth where e: "e = (key, meth)"
    by (cases e)
  obtain r s1 where ex: "exec meth s = (r, s1)"
    by (cases "exec meth s")
  let ?s2 = "s1\<lparr>queue := AList.delete key (queue s1)\<rparr>"
  obtain settled s3 where d: "drain_snapshot exec es ?s2 = (settled, s3)"
    by (cases "drain_snapshot exec es ?s2")
  have wf2: "queue_wf ?s2"
    using methods_only_enqueueD(1) [OF assms Cons.prems(1) ex] by (rule queue_wf_delete)
  have n2: "n \<le> queueIndex ?s2"
    using methods_only_enqueueD(2) [OF assms Cons.prems(1) ex] Cons.prems(2) by simp
  have kept: "map_of (queue s1) k = map_of (queue s) k"
    using methods_only_enqueueD(3) [OF assms Cons.prems(1) ex, of k] Cons.prems(2,3) by simp
  have "map_of (queue s3) k = (if k \<in> fst ` set es then None else map_of (queue ?s2) k)"
    using Cons.IH [OF wf2 n2 Cons.prems(3)] d by simp
  also have "map_of (queue ?s2) k = (if k = key then None else map_of (queue s) k)"
    using kept by (simp add: delete_conv')
  finally show ?case
    by (simp add: e ex d)
qed

lemma map_of_None_all_below:
  assumes "\<And>k. k < n \<Longrightarrow> map_of q k = None"
  shows "\<forall>k \<in> fst ` set q. n \<le> (k :: nat)"
proof
  fix k assume "k \<in> fst ` set q"
  then have "map_of q k \<noteq> None"
    by (simp add: map_of_eq_None_iff)
  with assms [of k] show "n \<le> k"
    by (cases "k < n") simp_all
qed

lemma runQueue_only_enqueue:
  assumes "queue_wf s" and "methods_only_enqueue exec"
  shows "runQueue exec s = drain_snapshot exec (queue s) s
    \<and> map fst (fst (runQueue exec s)) = map fst (queue s)
    \<and> (\<forall>k \<in> fst ` set (queue (snd (runQueue exec s))). queueIndex s \<le> k)"
proof -
  have "run_keys exec (map fst (queue s)) s = drain_snapshot exec (queue s) s"
    using assms(1) by (intro run_keys_drain assms) (simp_all add: queue_wf_def)
  then have eq: "runQueue exec s = drain_snapshot exec (queue s) s"
    by (cases "queue s") (simp_all add: runQueue_def)
  have gone: "map_of (queue (snd (drain_snapshot exec (queue s) s))) k = None"
    if "k < queueIndex s" for k
    using drain_snapshot_removes [OF assms(2,1) order_refl that, of "queue s"]
    by (simp add: map_of_eq_None_iff)
  show ?thesis
    using map_of_None_all_below [of "queueIndex s", OF gone]
    by (simp add: eq drain_snapshot_keys)
qed

lemma actionAddQueue_enqueues:
  assumes "queue_wf s"
  shows "queue_wf (snd (actionAddQueue meth s))"
    and "queueIndex s \<le> queueIndex (snd (actionAddQueue meth s))"
    and "k < queueIndex s \<Longrightarrow> map_of (queue (snd (actionAddQueue meth s))) k = map_of (queue s) k"
proof -
  let ?q = "AList.update (queueIndex s) meth (queue s)"
  have s': "snd (actionAddQueue meth s) = s\<lparr>queueIndex := queueIndex s + 1, queue := ?q\<rparr>"
    by (simp add: actionAddQueue_def getQueueIndex_def)
  have "distinct (map fst ?q)"
    using assms by (simp add: queue_wf_def distinct_update)
  moreover have "k < queueIndex s + 1" if "k \<in> fst ` set ?q" for k
    using that assms unfolding queue_wf_def dom_update by auto
  ultimately show "queue_wf (snd (actionAddQueue meth s))"
    by (simp add: s' queue_wf_def)
  show "queueIndex s \<le> queueIndex (snd (actionAddQueue meth s))"
    by (simp add: s')
  show "map_of (queue (snd (actionAddQueue meth s))) k = map_of (queue s) k"
    if "k < queueIndex s"
    using that by (simp add: s' update_conv')
qed

lemma demo_exec_only_enqueues: "methods_only_enqueue demo_exec"
  unfolding methods_only_enqueue_def demo_exec_def
  by (simp add: actionAddQueue_enqueues)

lemma queue_wf_new_device: "queue_wf (new_device off)"
  by (simp add: queue_wf_def new_device_def)

lemma queue_wf_demo_queued: "queue_wf demo_queued"
  unfolding demo_queued_def
  by (intro actionAddQueue_enqueues(1) queue_wf_new_device)

lemma demo_queued_eq:
  "demo_queued = (new_device 30000)\<lparr>queueIndex := 4,
     queue := [(1, Inr 10, False), (2, Inl ''write failed'', True), (3, Inr 30, False)]\<rparr>"
  by (simp add: demo_queued_def actionAddQueue_def getQueueIndex_def new_device_def)

lemma methods_keep_or_removeD:
  assumes "methods_keep_or_remove exec" "queue_wf s" "exec meth s = (r, s')"
  shows "queue_wf s'"
    and "queueIndex s \<le> queueIndex s'"
    and "k < queueIndex s \<Longrightarrow>
           map_of (queue s') k = map_of (queue s) k \<or> map_of (queue s') k = None"
  using assms unfolding methods_keep_or_remove_def by (metis snd_conv)+

lemma only_enqueue_keeps: "methods_only_enqueue exec \<Longrightarrow> methods_keep_or_remove exec"
  unfolding methods_only_enqueue_def methods_keep_or_remove_def by blast

lemma run_keys_drain_present:
  assumes "methods_keep_or_remove exec"
  shows "queue_wf s \<Longrightarrow> distinct (map fst es)
    \<Longrightarrow> (\<And>k m. (k, m) \<in> set es \<Longrightarrow>
           k < queueIndex s \<and> (map_of (queue s) k = Some m \<or> map_of (queue s) k = None))
    \<Longrightarrow> run_keys exec (map fst es) s = drain_present exec es s"
proof (induction es arbitrary: s)
  case Nil
  show ?case by simp
next
  case (Cons e es)
  obtain key meth where e: "e = (key, meth)"
    by (cases e)
  have dist: "distinct (map fst es)"
    using Cons.prems(2) by simp
  show ?case
  proof (cases "map_of (queue s) key")
    case None
    then have gone: "key \<notin> fst ` set (queue s)"
      by (simp add: map_of_eq_None_iff)
    have sub: "k < queueIndex s
        \<and> (map_of (queue s) k = Some m \<or> map_of (queue s) k = None)"
      if "(k, m) \<in> set es" for k m
      using Cons.prems(3) [of k m] that by simp
    have "run_keys exec (map fst es) s = drain_present exec es s"
      by (rule Cons.IH [OF Cons.prems(1) dist sub])
    then show ?thesis
      using None gone by (simp add: e)
  next
    case (Some m')
    have "map_of (queue s) key = Some meth \<or> map_of (queue s) key = None"
      using Cons.prems(3) [of key meth] e by simp
    with Some have here: "map_of (queue s) key = Some meth"
      by simp
    then have present: "key \<in> fst ` set (queue s)"
      by (metis map_of_eq_None_iff option.distinct(1))
    obtain r s1 where ex: "exec meth s = (r, s1)"
      by (cases "exec meth s")
    let ?s2 = "s1\<lparr>queue := AList.delete key (queue s1)\<rparr>"
    have wf2: "queue_wf ?s2"
      using methods_keep_or_removeD(1) [OF assms Cons.prems(1) ex] by (rule queue_wf_delete)
    have idx: "queueIndex s \<le> queueIndex ?s2"
      using methods_keep_or_removeD(2) [OF assms Cons.prems(1) ex] by simp
    have rest: "k < queueIndex ?s2
        \<and> (map_of (queue ?s2) k = Some m \<or> map_of (queue ?s2) k = None)"
      if km: "(k, m) \<in> set es" for k m
    proof -
      have before: "k < queueIndex s"
        "map_of (queue s) k = Some m \<or> map_of (queue s) k = None"
        using Cons.prems(3) [of k m] km by simp_all
      have "k \<noteq> key"
        using Cons.prems(2) km e by (auto simp add: image_iff)
      then have "map_of (queue ?s2) k = map_of (queue s1) k"
        by simp
      moreover have "map_of (queue s1) k = map_of (queue s) k \<or> map_of (queue s1) k = None"
        using methods_keep_or_removeD(3) [OF assms Cons.prems(1) ex before(1)] .
      ultimately show ?thesis
        using before idx by auto
    qed
    have "run_keys exec (map fst es) ?s2 = drain_present exec es ?s2"
      by (intro Cons.IH wf2 dist rest)
    then show ?thesis
      using here present by (simp add: e ex)
  qed
qed

lemma drain_present_subseq: "subseq (map fst (fst (drain_present exec es s))) (map fst es)"
proof (induction es arbitrary: s)
  case Nil
  show ?case by simp
next
  case (Cons e es)
  obtain key meth where e: "e = (key, meth)"
    by (cases e)
  show ?case
  proof (cases "key \<in> fst ` set (queue s)")
    case True
    obtain r s1 where ex: "exec meth s = (r, s1)"
      by (cases "exec meth s")
    let ?s2 = "s1\<lparr>queue := AList.delete key (queue s1)\<rparr>"
    obtain settled s3 where d: "drain_present exec es ?s2 = (settled, s3)"
      by (cases "drain_present exec es ?s2")
    have "subseq (map fst settled) (map fst es)"
      using Cons.IH [of ?s2] d by simp
    then show ?thesis
      using True by (simp add: e ex d)
  next
    case False
    have "subseq (map fst (fst (drain_present exec es s))) (map fst es)"
      by (rule Cons.IH)
    then show ?thesis
      using False by (simp add: e list_emb_Cons)
  qed
qed

lemma drain_present_removes:
  assumes "methods_keep_or_remove exec"
  shows "queue_wf s \<Longrightarrow> n \<le> queueIndex s \<Longrightarrow> k < n
    \<Longrightarrow> k \<in> fst ` set es \<or> map_of (queue s) k = None
    \<Longrightarrow> map_of (queue (snd (drain_present exec es s))) k = None"
proof (induction es arbitrary: s)
  case Nil
  then show ?case by simp
next
  case (Cons e es)
  obtain key meth where e: "e = (key, meth)"
    by (cases e)
  show ?case
  proof (cases "key \<in> fst ` set (queue s)")
    case False
    then have "map_of (queue s) key = None"
      by (simp add: map_of_eq_None_iff)
    then have "k \<in> fst ` set es \<or> map_of (queue s) k = None"
      using Cons.prems(4) e by auto
    then have "map_of (queue (snd (drain_present exec es s))) k = None"
      by (intro Cons.IH Cons.prems(1,2,3))
    then show ?thesis
      using False by (simp add: e)
  next
    case True
    obtain r s1 where ex: "exec meth s = (r, s1)"
      by (cases "exec meth s")
    let ?s2 = "s1\<lparr>queue := AList.delete key (queue s1)\<rparr>"
    obtain settled s3 where d: "drain_present exec es ?s2 = (settled, s3)"
      by (cases "drain_present exec es ?s2")
    have wf2: "queue_wf ?s2"
      using methods_keep_or_removeD(1) [OF assms Cons.prems(1) ex] by (rule queue_wf_delete)
    have n2: "n \<le> queueIndex ?s2"
      using methods_keep_or_removeD(2) [OF assms Cons.prems(1) ex] Cons.prems(2) by simp
    have k: "k < queueIndex s"
      using Cons.prems(2,3) by simp
    have kept: "map_of (queue s1) k = map_of (queue s) k \<or> map_of (queue s1) k = None"
      using methods_keep_or_removeD(3) [OF assms Cons.prems(1) ex k] .
    have "k \<in> fst ` set es \<or> map_of (queue ?s2) k = None"
    proof (cases "k = key")
      case True
      then show ?thesis
        by (simp add: delete_conv')
    next
      case False
      then have "map_of (queue ?s2) k = map_of (queue s1) k"
        by simp
      with kept Cons.prems(4) False e show ?thesis
        by auto
    qed
    then have "map_of (queue (snd (drain_present exec es ?s2))) k = None"
      by (intro Cons.IH wf2 n2 Cons.prems(3))
    then show ?thesis
      using True by (simp add: e ex d)
  qed
qed

lemma acting_exec_keeps_or_removes: "methods_keep_or_remove acting_exec"
  unfolding methods_keep_or_remove_def
proof (intro allI impI)
  fix meth :: acting_method and s :: "acting_method DeviceRTU"
  assume wf: "queue_wf s"
  show "queue_wf (snd (acting_exec meth s))
        \<and> queueIndex s \<le> queueIndex (snd (acting_exec meth s))
        \<and> (\<forall>k. k < queueIndex s \<longrightarrow>
              map_of (queue (snd (acting_exec meth s))) k = map_of (queue s) k
              \<or> map_of (queue (snd (acting_exec meth s))) k = None)"
  proof (cases "snd meth")
    case Leaves
    with wf show ?thesis
      by (simp add: acting_exec_def)
  next
    case Enqueues
    with wf show ?thesis
      by (simp add: acting_exec_def actionAddQueue_enqueues)
  next
    case (Removes key)
    with queue_wf_delete [OF wf, of key] show ?thesis
      by (simp add: acting_exec_def delete_conv')
  qed
qed

lemma queue_wf_acting_queued: "queue_wf acting_queued"
  unfolding acting_queued_def
  by (intro actionAddQueue_enqueues(1) queue_wf_new_device)

lemma acting_queued_eq:
  "acting_queued = (new_device 30000)\<lparr>queueIndex := 5,
     queue := [(1, Inr 10, Removes 2), (2, Inr 20, Leaves),
               (3, Inl ''write failed'', Enqueues), (4, Inr 40, Leaves)]\<rparr>"
  by (simp add: acting_queued_def actionAddQueue_def getQueueIndex_def new_device_def)

lemma acting_run:
  "runQueue acting_exec acting_queued =
     ([(1, Inr 10), (3, Inl ''write failed''), (4, Inr 40)],
      (new_device 30000)\<lparr>queueIndex := 6, queue := [(5, Inr 0, Leaves)]\<rparr>)"
  by (simp add: acting_queued_eq runQueue_def acting_exec_def actionAddQueue_def
      getQueueIndex_def new_device_def)

text \<open>
  C7, as amended. On a queue as \<open>actionAddQueue\<close> builds it, with methods that never
  replace an entry nor put one back under a sequence id already issued, \<open>runQueue\<close>
  goes through the entries of the snapshot in the order of the \<open>Map\<close>: an entry still in
  the queue when its turn comes is executed once and its handle settled with the value
  or the error of its method, an entry gone by then is skipped, and in both cases the
  drain goes on, also after an error. The keys settled are distinct keys of the
  snapshot in its order, and every entry left in the queue has a sequence id issued
  after the snapshot, so what is enqueued during the drain is not executed in this
  pass. When the methods touch the queue only by enqueueing, nothing is skipped: the
  entries executed are exactly the entries present at the snapshot.
\<close>

theorem runQueue_drains_present:
  assumes "queue_wf s" and "methods_keep_or_remove exec"
  shows "runQueue exec s = drain_present exec (queue s) s
    \<and> subseq (map fst (fst (runQueue exec s))) (map fst (queue s))
    \<and> distinct (map fst (fst (runQueue exec s)))
    \<and> (\<forall>k \<in> fst ` set (queue (snd (runQueue exec s))). queueIndex s \<le> k)
    \<and> (methods_only_enqueue exec \<longrightarrow>
          runQueue exec s = drain_snapshot exec (queue s) s
          \<and> map fst (fst (runQueue exec s)) = map fst (queue s))"
proof -
  have dist: "distinct (map fst (queue s))"
    using assms(1) by (simp add: queue_wf_def)
  have entries: "k < queueIndex s
      \<and> (map_of (queue s) k = Some m \<or> map_of (queue s) k = None)"
    if "(k, m) \<in> set (queue s)" for k m
  proof -
    have "map_of (queue s) k = Some m"
      using dist that by simp
    then show ?thesis
      using queue_wf_key_less [OF assms(1), of k m] by simp
  qed
  have "run_keys exec (map fst (queue s)) s = drain_present exec (queue s) s"
    by (rule run_keys_drain_present [OF assms(2,1) dist entries])
  then have eq: "runQueue exec s = drain_present exec (queue s) s"
    by (cases "queue s") (simp_all add: runQueue_def)
  have sub: "subseq (map fst (fst (runQueue exec s))) (map fst (queue s))"
    unfolding eq by (rule drain_present_subseq)
  have once: "distinct (map fst (fst (runQueue exec s)))"
    by (rule subseqs_distinctD [of _ "map fst (queue s)"]) (simp_all add: sub dist)
  have gone: "map_of (queue (snd (drain_present exec (queue s) s))) k = None"
    if "k < queueIndex s" for k
  proof -
    have "k \<in> fst ` set (queue s) \<or> map_of (queue s) k = None"
      by (simp add: map_of_eq_None_iff)
    then show ?thesis
      by (rule drain_present_removes [OF assms(2,1) order_refl that])
  qed
  have left: "\<forall>k \<in> fst ` set (queue (snd (runQueue exec s))). queueIndex s \<le> k"
    unfolding eq by (rule map_of_None_all_below [of "queueIndex s", OF gone])
  have exact: "runQueue exec s = drain_snapshot exec (queue s) s
          \<and> map fst (fst (runQueue exec s)) = map fst (queue s)"
    if "methods_only_enqueue exec"
    using runQueue_only_enqueue [OF assms(1) that] by blast
  show ?thesis
  proof (intro conjI impI)
    show "runQueue exec s = drain_present exec (queue s) s"
      by (rule eq)
    show "subseq (map fst (fst (runQueue exec s))) (map fst (queue s))"
      by (rule sub)
    show "distinct (map fst (fst (runQueue exec s)))"
      by (rule once)
    show "\<forall>k \<in> fst ` set (queue (snd (runQueue exec s))). queueIndex s \<le> k"
      by (rule left)
  next
    assume "methods_only_enqueue exec"
    then show "runQueue exec s = drain_snapshot exec (queue s) s"
      by (rule exact [THEN conjunct1])
  next
    assume "methods_only_enqueue exec"
    then show "map fst (fst (runQueue exec s)) = map fst (queue s)"
      by (rule exact [THEN conjunct2])
  qed
qed

theorem runQueue_drains_present_witness:
  "queue_wf acting_queued \<and> methods_keep_or_remove acting_exec
   \<and> map fst (queue acting_queued) = [1, 2, 3, 4]
   \<and> runQueue acting_exec acting_queued
       = drain_present acting_exec (queue acting_queued) acting_queued
   \<and> fst (runQueue acting_exec acting_queued)
       = [(1, Inr 10), (3, Inl ''write failed''), (4, Inr 40)]
   \<and> map fst (queue (snd (runQueue acting_exec acting_queued))) = [5]
   \<and> queue_wf demo_queued \<and> methods_keep_or_remove demo_exec
   \<and> methods_only_enqueue demo_exec
   \<and> map fst (queue demo_queued) = [1, 2, 3]
   \<and> fst (runQueue demo_exec demo_queued)
       = [(1, Inr 10), (2, Inl ''write failed''), (3, Inr 30)]
   \<and> map fst (queue (snd (runQueue demo_exec demo_queued))) = [4]"
proof -
  note acting = runQueue_drains_present [OF queue_wf_acting_queued acting_exec_keeps_or_removes]
  have a1: "runQueue acting_exec acting_queued
      = drain_present acting_exec (queue acting_queued) acting_queued"
    by (rule acting [THEN conjunct1])
  have "drain_present acting_exec (queue acting_queued) acting_queued =
     ([(1, Inr 10), (3, Inl ''write failed''), (4, Inr 40)],
      (new_device 30000)\<lparr>queueIndex := 6, queue := [(5, Inr 0, Leaves)]\<rparr>)"
    by (simp add: acting_queued_eq acting_exec_def actionAddQueue_def getQueueIndex_def
        new_device_def)
  with a1 have a2: "runQueue acting_exec acting_queued =
     ([(1, Inr 10), (3, Inl ''write failed''), (4, Inr 40)],
      (new_device 30000)\<lparr>queueIndex := 6, queue := [(5, Inr 0, Leaves)]\<rparr>)"
    by simp
  have a3: "map fst (queue acting_queued) = [1, 2, 3, 4]"
    by (simp add: acting_queued_eq)
  have keeps: "methods_keep_or_remove demo_exec"
    using demo_exec_only_enqueues by (rule only_enqueue_keeps)
  note demo = runQueue_drains_present [OF queue_wf_demo_queued keeps]
  have d1: "runQueue demo_exec demo_queued
      = drain_snapshot demo_exec (queue demo_queued) demo_queued"
    by (rule demo [THEN conjunct2, THEN conjunct2, THEN conjunct2, THEN conjunct2, THEN mp,
          THEN conjunct1])
       (rule demo_exec_only_enqueues)
  have "drain_snapshot demo_exec (queue demo_queued) demo_queued =
      ([(1, Inr 10), (2, Inl ''write failed''), (3, Inr 30)],
       (new_device 30000)\<lparr>queueIndex := 5, queue := [(4, Inr 0, False)]\<rparr>)"
    by (simp add: demo_queued_eq demo_exec_def actionAddQueue_def getQueueIndex_def
        new_device_def)
  with d1 have d2: "runQueue demo_exec demo_queued =
      ([(1, Inr 10), (2, Inl ''write failed''), (3, Inr 30)],
       (new_device 30000)\<lparr>queueIndex := 5, queue := [(4, Inr 0, False)]\<rparr>)"
    by simp
  have d3: "map fst (queue demo_queued) = [1, 2, 3]"
    by (simp add: demo_queued_eq)
  show ?thesis
  proof (intro conjI)
    show "queue_wf acting_queued"
      by (rule queue_wf_acting_queued)
    show "methods_keep_or_remove acting_exec"
      by (rule acting_exec_keeps_or_removes)
    show "map fst (queue acting_queued) = [1, 2, 3, 4]"
      by (rule a3)
    show "runQueue acting_exec acting_queued
        = drain_present acting_exec (queue acting_queued) acting_queued"
      by (rule a1)
    show "fst (runQueue acting_exec acting_queued)
        = [(1, Inr 10), (3, Inl ''write failed''), (4, Inr 40)]"
      by (simp add: a2)
    show "map fst (queue (snd (runQueue acting_exec acting_queued))) = [5]"
      by (simp add: a2)
    show "queue_wf demo_queued"
      by (rule queue_wf_demo_queued)
    show "methods_keep_or_remove demo_exec"
      by (rule keeps)
    show "methods_only_enqueue demo_exec"
      by (rule demo_exec_only_enqueues)
    show "map fst (queue demo_queued) = [1, 2, 3]"
      by (rule d3)
    show "fst (runQueue demo_exec demo_queued)
        = [(1, Inr 10), (2, Inl ''write failed''), (3, Inr 30)]"
      by (simp add: d2)
    show "map fst (queue (snd (runQueue demo_exec demo_queued))) = [4]"
      by (simp add: d2)
  qed
qed

text \<open>
  C7, as stated, fails when a method removes an entry of the snapshot before the drain
  reaches it. Four actions are queued and the first, when run, deletes the second from
  the queue: the second was present at the snapshot and is never executed, while the
  third and the fourth still are.
\<close>

theorem runQueue_skips_removed_counterexample:
  "map fst (queue acting_queued) = [1, 2, 3, 4]
   \<and> map_of (queue acting_queued) 2 = Some (Inr 20, Leaves)
   \<and> fst (runQueue acting_exec acting_queued)
       = [(1, Inr 10), (3, Inl ''write failed''), (4, Inr 40)]"
  by (simp add: acting_run) (simp add: acting_queued_eq)

subsection \<open>makeRequest\<close>

lemma js_and_mask8: "js_and x 0xFF = x mod 256"
proof -
  have "x AND 255 = x mod 256"
    using take_bit_eq_mask [of 8 x] by (simp add: take_bit_eq_mod mask_eq_exp_minus_1)
  moreover have "word_of_int x AND (word_of_int 255 :: 32 word) = word_of_int (x AND 255)"
    by (simp only: word_wi_log_defs)
  then have "js_and x 0xFF = sint (word_of_int (x AND 255) :: 32 word)"
    by (simp add: js_and_def ToInt32_def)
  ultimately show ?thesis
    by (simp add: sint32_small)
qed

lemma js_and_mask16: "js_and x 0xFFFF = x mod 65536"
proof -
  have "x AND 65535 = x mod 65536"
    using take_bit_eq_mask [of 16 x] by (simp add: take_bit_eq_mod mask_eq_exp_minus_1)
  moreover have "word_of_int x AND (word_of_int 65535 :: 32 word) = word_of_int (x AND 65535)"
    by (simp only: word_wi_log_defs)
  then have "js_and x 0xFFFF = sint (word_of_int (x AND 65535) :: 32 word)"
    by (simp add: js_and_def ToInt32_def)
  ultimately show ?thesis
    by (simp add: sint32_small)
qed

lemma pow2_small: "k < 8 \<Longrightarrow> (2 :: int) ^ k < 2 ^ 31"
  by (rule power_strict_increasing) simp_all

lemma js_shl_one: 
  assumes "k < 8"
  shows "js_shl 1 (int k) = 2 ^ k"
proof -
  have "int k mod 32 = int k"
    using assms by simp
  then have "js_shl 1 (int k) = sint (push_bit k (1 :: 32 word))"
    by (simp add: js_shl_def ToInt32_def)
  also have "push_bit k (1 :: 32 word) = word_of_int (2 ^ k)"
    by (simp add: push_bit_eq_mult)
  also have "sint (word_of_int (2 ^ k) :: 32 word) = 2 ^ k"
    using pow2_small [OF assms] by (intro sint32_small) simp_all
  finally show ?thesis .
qed

lemma js_or_small:
  "0 \<le> a \<Longrightarrow> a < 2 ^ 31 \<Longrightarrow> 0 \<le> b \<Longrightarrow> b < 2 ^ 31 \<Longrightarrow> js_or a b = a OR b"
  unfolding js_or_def ToInt32_def word_wi_log_defs
  using OR_upper [of a 31 b] by (intro sint32_small) simp_all

lemma js_set_bit:
  assumes "k < 8"
  shows "(word_of_int (js_or (uint (b :: 8 word)) (js_shl 1 (int k))) :: 8 word) = b OR 2 ^ k"
proof -
  have "js_or (uint b) (js_shl 1 (int k)) = uint b OR 2 ^ k"
    using uint8_small [of b] pow2_small [OF assms]
    by (simp add: js_shl_one [OF assms] js_or_small)
  then show ?thesis
    by (simp add: word_wi_log_defs [symmetric])
qed

lemma length_chunk: "length (take 8 (drop (8 * j) (map f vs))) = min 8 (length vs - 8 * j)"
  by simp

lemma bit_coil_byte:
  "bit (coil_byte vs j) k \<longleftrightarrow> k < 8 \<and> 8 * j + k < length vs \<and> vs ! (8 * j + k) \<noteq> 0"
proof (cases "k < 8 \<and> 8 * j + k < length vs")
  case True
  then have "k < length vs - 8 * j"
    by arith
  with True have "k < length (take 8 (drop (8 * j) (map (\<lambda>v. v \<noteq> 0) vs)))"
    by simp
  moreover have "take 8 (drop (8 * j) (map (\<lambda>v. v \<noteq> 0) vs)) ! k \<longleftrightarrow> vs ! (8 * j + k) \<noteq> 0"
    using True by simp
  ultimately show ?thesis
    using True by (simp add: coil_byte_def bit_horner_sum_bit_word_iff)
next
  case False
  then have "\<not> (k < length vs - 8 * j \<and> k < 8)"
    by arith
  then show ?thesis
    using False by (auto simp add: coil_byte_def bit_horner_sum_bit_word_iff)
qed

lemma coil_byte_Nil: "coil_byte [] j = 0"
  by (simp add: coil_byte_def)

lemma index_split:
  assumes "(k :: nat) < 8"
  shows "8 * j + k = m \<longleftrightarrow> j = m div 8 \<and> k = m mod 8"
proof
  assume "8 * j + k = m"
  then have m: "m = k + j * 8"
    by (simp add: ac_simps)
  show "j = m div 8 \<and> k = m mod 8"
    using assms unfolding m by simp
next
  assume "j = m div 8 \<and> k = m mod 8"
  then show "8 * j + k = m"
    by simp
qed

lemma coil_byte_take_Suc:
  assumes "m < length vs"
  shows "coil_byte (take (Suc m) vs) j =
           (if j = m div 8 \<and> vs ! m \<noteq> 0
            then coil_byte (take m vs) j OR 2 ^ (m mod 8)
            else coil_byte (take m vs) j)"
proof (rule bit_eqI)
  fix k
  assume "possible_bit TYPE(8 word) k"
  then have k: "k < 8"
    by (simp add: possible_bit_word)
  note here = index_split [OF k, of j m]
  define before where "before \<longleftrightarrow> 8 * j + k < m \<and> vs ! (8 * j + k) \<noteq> 0"
  have old: "bit (coil_byte (take m vs) j) k \<longleftrightarrow> before"
    using assms k by (auto simp add: bit_coil_byte before_def)
  have "bit (coil_byte (take (Suc m) vs) j) k
          \<longleftrightarrow> 8 * j + k < Suc m \<and> vs ! (8 * j + k) \<noteq> 0"
    using assms k by (auto simp add: bit_coil_byte)
  also have "\<dots> \<longleftrightarrow> before \<or> (8 * j + k = m \<and> vs ! m \<noteq> 0)"
    unfolding before_def by (cases "8 * j + k = m") auto
  finally have new: "bit (coil_byte (take (Suc m) vs) j) k
          \<longleftrightarrow> before \<or> (8 * j + k = m \<and> vs ! m \<noteq> 0)" .
  have pow: "bit ((2 :: 8 word) ^ (m mod 8)) k \<longleftrightarrow> k = m mod 8"
    using k by (auto simp add: bit_exp_iff possible_bit_word)
  show "bit (coil_byte (take (Suc m) vs) j) k \<longleftrightarrow>
        bit (if j = m div 8 \<and> vs ! m \<noteq> 0
             then coil_byte (take m vs) j OR 2 ^ (m mod 8)
             else coil_byte (take m vs) j) k"
  proof (cases "j = m div 8 \<and> vs ! m \<noteq> 0")
    case True
    have eq: "(if j = m div 8 \<and> vs ! m \<noteq> 0
             then coil_byte (take m vs) j OR 2 ^ (m mod 8)
             else coil_byte (take m vs) j) = coil_byte (take m vs) j OR 2 ^ (m mod 8)"
      using True by (rule if_P)
    have "(8 * j + k = m \<and> vs ! m \<noteq> 0) \<longleftrightarrow> k = m mod 8"
      using True here by blast
    then show ?thesis
      unfolding eq new bit_or_iff old pow by blast
  next
    case False
    have eq: "(if j = m div 8 \<and> vs ! m \<noteq> 0
             then coil_byte (take m vs) j OR 2 ^ (m mod 8)
             else coil_byte (take m vs) j) = coil_byte (take m vs) j"
      using False by (rule if_not_P)
    have "\<not> (8 * j + k = m \<and> vs ! m \<noteq> 0)"
      using False here by blast
    then show ?thesis
      unfolding eq new old by blast
  qed
qed

lemma pack_coils_upto:
  assumes "length hdr = 7" and "length vs \<le> 8 * nb"
  shows "m \<le> length vs \<Longrightarrow>
    pack_coils vs m (hdr @ replicate nb 0) = hdr @ map (coil_byte (take m vs)) [0..<nb]"
proof (induction m)
  case 0
  have "map (coil_byte []) [0..<nb] = replicate nb 0"
    by (intro nth_equalityI) (simp_all add: coil_byte_Nil)
  then show ?case
    by (simp add: pack_coils_def)
next
  case (Suc m)
  then have m: "m < length vs"
    by simp
  then have idx: "m div 8 < nb"
    using assms(2) by simp
  let ?old = "map (coil_byte (take m vs)) [0..<nb]"
  have before: "pack_coils vs m (hdr @ replicate nb 0) = hdr @ ?old"
    using Suc by simp
  have upd: "?old[m div 8 := coil_byte (take m vs) (m div 8) OR 2 ^ (m mod 8)]
               = map (coil_byte (take (Suc m) vs)) [0..<nb]" if "vs ! m \<noteq> 0"
    using that idx by (intro nth_equalityI) (simp_all add: coil_byte_take_Suc [OF m] nth_list_update)
  have same: "?old = map (coil_byte (take (Suc m) vs)) [0..<nb]" if "vs ! m = 0"
    using that by (simp add: coil_byte_take_Suc [OF m])
  have "pack_coils vs (Suc m) (hdr @ replicate nb 0) =
          (if vs ! m \<noteq> 0
           then (hdr @ ?old)[7 + m div 8 :=
                  word_of_int (js_or (uint ((hdr @ ?old) ! (7 + m div 8)))
                    (js_shl 1 (int (m mod 8))))]
           else hdr @ ?old)"
    using before by (simp add: pack_coils_def Let_def)
  also have "\<dots> = hdr @ map (coil_byte (take (Suc m) vs)) [0..<nb]"
  proof (cases "vs ! m \<noteq> 0")
    case True
    have "(hdr @ ?old) ! (7 + m div 8) = coil_byte (take m vs) (m div 8)"
      using assms(1) idx by (simp add: nth_append)
    moreover have "(hdr @ ?old)[7 + m div 8 := x] = hdr @ ?old[m div 8 := x]" for x
      using assms(1) by (simp add: list_update_append)
    ultimately show ?thesis
      using True by (simp add: js_set_bit upd)
  next
    case False
    then show ?thesis
      using same by simp
  qed
  finally show ?case .
qed

lemma pack_coils_all:
  assumes "length hdr = 7"
  shows "pack_coils vs (length vs) (hdr @ replicate ((length vs + 7) div 8) 0)
           = hdr @ coil_bytes vs"
proof -
  have "length vs \<le> 8 * ((length vs + 7) div 8)"
    by arith
  then show ?thesis
    using pack_coils_upto [OF assms, of vs "(length vs + 7) div 8" "length vs"]
    by (simp add: coil_bytes_def)
qed

lemma ceil8_eq: "ceil8 (int n) = int ((n + 7) div 8)"
  unfolding ceil8_def by (simp add: zdiv_int)

lemma alloc_header: "alloc (7 + nb) = [0, 0, 0, 0, 0, 0, 0] @ replicate nb 0"
  by (simp add: alloc_def replicate_add eval_nat_numeral)

lemma write_quantity:
  assumes "0 \<le> v" "v \<le> 65535"
  shows "writeUInt16BE v 4 ([h0, h1, h2, h3, h4, h5, h6] @ rest)
          = Inr ([h0, h1, h2, h3, word_of_int (v div 256), word_of_int (v mod 256), h6] @ rest)"
  using assms by (simp add: writeUInt16BE_def eval_nat_numeral)

lemma write_count:
  assumes "0 \<le> v" "v \<le> 255"
  shows "writeUInt8 v 6 ([h0, h1, h2, h3, h4, h5, h6] @ rest)
          = Inr ([h0, h1, h2, h3, h4, h5, word_of_int v] @ rest)"
  using assms by (simp add: writeUInt8_def eval_nat_numeral)

lemma write_common:
  assumes "0 \<le> s" "s \<le> 255" "0 \<le> f" "f \<le> 255" "0 \<le> a" "a \<le> 65535"
  shows "and_then (writeUInt8 s 0 ([h0, h1, h2, h3, h4, h5, h6] @ rest)) (\<lambda>buffer.
         and_then (writeUInt8 f 1 buffer) (\<lambda>buffer.
         and_then (writeUInt16BE a 2 buffer) k))
          = k ([word_of_int s, word_of_int f, word_of_int (a div 256), word_of_int (a mod 256),
                h4, h5, h6] @ rest)"
  using assms
  by (simp add: writeUInt8_def writeUInt16BE_def and_then_def eval_nat_numeral)

lemma makeRequest_coils_absent:
  "makeRequest slave 0x0F address quantity None = Inl V2MODBUS_WRITE_DATA_REQUIRED_COILS"
  by (simp add: makeRequest_def and_then_def)

lemma makeRequest_coils_count:
  assumes "length wd < 1 \<or> 1968 < length wd"
  shows "makeRequest slave 0x0F address quantity (Some wd) = Inl V2MODBUS_COILS_COUNT_INVALID"
  using assms by (auto simp add: makeRequest_def and_then_def)

lemma makeRequest_coils_frame:
  assumes "1 \<le> length wd" "length wd \<le> 1968"
  shows "makeRequest slave 0x0F address quantity (Some wd) =
           addCRC ([word_of_int (slave mod 256), 0x0F,
                    word_of_int (address mod 65536 div 256),
                    word_of_int (address mod 65536 mod 256),
                    word_of_int (int (length wd) div 256),
                    word_of_int (int (length wd) mod 256),
                    word_of_int (int ((length wd + 7) div 8))] @ coil_bytes wd)"
proof -
  let ?n = "int (length wd)"
  let ?nb = "(length wd + 7) div 8"
  have n: "0 \<le> ?n" "?n \<le> 65535"
    using assms by simp_all
  have nb: "0 \<le> int ?nb" "int ?nb \<le> 255"
    using assms by simp_all
  have body: "and_then (writeUInt16BE ?n 4 (alloc (7 + ?nb)))
          (\<lambda>buffer. and_then (writeUInt8 (int ?nb) 6 buffer)
          (\<lambda>buffer. Inr (pack_coils wd (length wd) buffer)))
        = Inr ([0, 0, 0, 0, word_of_int (?n div 256), word_of_int (?n mod 256),
                word_of_int (int ?nb)] @ coil_bytes wd)"
    unfolding alloc_header write_quantity [OF n] and_then_def sum.case
      write_count [OF nb]
    using pack_coils_all [of "[0, 0, 0, 0, word_of_int (?n div 256), word_of_int (?n mod 256),
                word_of_int (int ?nb)]" wd]
    by simp
  have s: "0 \<le> slave mod 256" "slave mod 256 \<le> 255"
    by simp_all
  have a: "0 \<le> address mod 65536" "address mod 65536 \<le> 65535"
    by simp_all
  have f: "(0 :: int) \<le> 15" "(15 :: int) \<le> 255"
    by simp_all
  have ne: "wd \<noteq> []"
    using assms by auto
  have "makeRequest slave 0x0F address quantity (Some wd) =
      and_then (Inr ([0, 0, 0, 0, word_of_int (?n div 256), word_of_int (?n mod 256),
                word_of_int (int ?nb)] @ coil_bytes wd)) (\<lambda>buffer.
         and_then (writeUInt8 (slave mod 256) 0 buffer) (\<lambda>buffer.
         and_then (writeUInt8 15 1 buffer) (\<lambda>buffer.
         and_then (writeUInt16BE (address mod 65536) 2 buffer) addCRC)))"
    using assms ne body
    by (simp add: makeRequest_def js_and_mask8 js_and_mask16 ceil8_eq Let_def)
  also have "\<dots> = addCRC ([word_of_int (slave mod 256), word_of_int 15,
                    word_of_int (address mod 65536 div 256),
                    word_of_int (address mod 65536 mod 256),
                    word_of_int (?n div 256), word_of_int (?n mod 256),
                    word_of_int (int ?nb)] @ coil_bytes wd)"
    unfolding and_then_def [of "Inr _"] sum.case
    by (rule write_common [OF s f a])
  finally show ?thesis
    by simp
qed

lemma makeRequest_coils_example:
  "makeRequest 1 0x0F 0x0020 5 (Some [1, 0, 1, 0, 1])
     = Inr [0x01, 0x0F, 0x00, 0x20, 0x00, 0x05, 0x01, 0x15, 0x2F, 0x5E]"
  by code_simp

text \<open>
  C6, as amended. With function code 0x0F, \<open>makeRequest\<close> fails with
  WriteDataRequiredCoils when the values are absent (or not an array), and only then;
  with values present it fails with CoilsCountInvalid exactly when their number is
  outside 1..1968; otherwise it returns the frame made of the slave id, 0x0F, the
  address, the number of values as the quantity whatever the quantity argument was, the
  byte count \<open>ceil(n / 8)\<close>, the values packed one bit each with the first value in the
  lowest bit, and the CRC, low byte first. For slave 1, address 0x0020 and the values
  1 0 1 0 1, the frame is 01 0F 00 20 00 05 01 15 2F 5E.
\<close>

theorem makeRequest_write_coils:
  "makeRequest slave 0x0F address quantity None = Inl V2MODBUS_WRITE_DATA_REQUIRED_COILS
   \<and> makeRequest slave 0x0F address quantity (Some wd) =
       (if length wd < 1 \<or> 1968 < length wd then Inl V2MODBUS_COILS_COUNT_INVALID
        else let body = [word_of_int (slave mod 256), 0x0F,
                         word_of_int (address mod 65536 div 256),
                         word_of_int (address mod 65536 mod 256),
                         word_of_int (int (length wd) div 256),
                         word_of_int (int (length wd) mod 256),
                         word_of_int (int ((length wd + 7) div 8))] @ coil_bytes wd;
                 crc = calculateCRC16 body
             in Inr (body @ [word_of_int (crc mod 256), word_of_int (crc div 256)]))
   \<and> makeRequest 1 0x0F 0x0020 5 (Some [1, 0, 1, 0, 1])
       = Inr [0x01, 0x0F, 0x00, 0x20, 0x00, 0x05, 0x01, 0x15, 0x2F, 0x5E]"
proof (intro conjI)
  show "makeRequest slave 0x0F address quantity None = Inl V2MODBUS_WRITE_DATA_REQUIRED_COILS"
    by (rule makeRequest_coils_absent)
  show "makeRequest slave 0x0F address quantity (Some wd) =
       (if length wd < 1 \<or> 1968 < length wd then Inl V2MODBUS_COILS_COUNT_INVALID
        else let body = [word_of_int (slave mod 256), 0x0F,
                         word_of_int (address mod 65536 div 256),
                         word_of_int (address mod 65536 mod 256),
                         word_of_int (int (length wd) div 256),
                         word_of_int (int (length wd) mod 256),
                         word_of_int (int ((length wd + 7) div 8))] @ coil_bytes wd;
                 crc = calculateCRC16 body
             in Inr (body @ [word_of_int (crc mod 256), word_of_int (crc div 256)]))"
  proof (cases "length wd < 1 \<or> 1968 < length wd")
    case True
    then show ?thesis
      by (simp only: makeRequest_coils_count if_True)
  next
    case False
    then have "1 \<le> length wd" "length wd \<le> 1968"
      by arith+
    then show ?thesis
      using False by (simp only: makeRequest_coils_frame addCRC_eq if_False Let_def)
  qed
  show "makeRequest 1 0x0F 0x0020 5 (Some [1, 0, 1, 0, 1])
       = Inr [0x01, 0x0F, 0x00, 0x20, 0x00, 0x05, 0x01, 0x15, 0x2F, 0x5E]"
    by (rule makeRequest_coils_example)
qed

text \<open>
  C6, as stated, fails on its example: the frame built for the values 1 0 1 0 1 is not
  01 0F 00 20 00 05 01 1A 9F 5B.
\<close>

theorem makeRequest_example_counterexample:
  "makeRequest 1 0x0F 0x0020 5 (Some [1, 0, 1, 0, 1])
     \<noteq> Inr [0x01, 0x0F, 0x00, 0x20, 0x00, 0x05, 0x01, 0x1A, 0x9F, 0x5B]"
  by (simp add: makeRequest_coils_example)

subsection \<open>inputBus\<close>

lemma inputBus_busy: "process (shares s) \<Longrightarrow> inputBus exec update provider s = (Inr (), s)"
  by (simp add: inputBus_def)

lemma iGate_shares:
  "shares (iGate s) = (shares s)\<lparr>progress := Some True\<rparr>"
  by (simp add: iGate_def render_def clearTimeout_def Let_def split: option.split)

lemma oGate_releases:
  "timers (oGate s) = timers s @ [(nextTimer s, offTimeout s)]"
  "offlineTimer (oGate s) = Some (nextTimer s)"
  "shares (oGate s) = (shares s)\<lparr>progress := Some False\<rparr>"
  "trace (oGate s) = trace s @ [Render ((shares s)\<lparr>progress := Some False\<rparr>)]"
  by (simp_all add: oGate_def setTimeout_def render_def Let_def)

lemma inputBus_success:
  assumes "\<not> process (shares s)"
    and "try_body exec update
           (iGate (s\<lparr>Provider := Some provider, trace := trace s @ [CanRequest provider]\<rparr>))
         = (Inr u, s')"
  shows "inputBus exec update provider s = (Inr (), oGate s')"
  using assms by (simp add: inputBus_def)

lemma inputBus_failure:
  assumes "\<not> process (shares s)"
    and "try_body exec update
           (iGate (s\<lparr>Provider := Some provider, trace := trace s @ [CanRequest provider]\<rparr>))
         = (Inl err, s')"
  shows "inputBus exec update provider s =
           (Inl err, s'\<lparr>shares := (shares s')\<lparr>online := False\<rparr>,
                        trace := trace s' @ [ErrorLog ''Update device error'' err]\<rparr>)"
  using assms by (simp add: inputBus_def)

lemma first_cycle:
  "inputBus demo_exec update_ok 7 (new_device 30000) =
     (Inr (), (new_device 30000)\<lparr>
        shares := \<lparr>online = True, process = False, progress = Some False\<rparr>,
        Provider := Some 7, offlineTimer := Some 1, timers := [(1, 30000)], nextTimer := 2,
        trace := [CanRequest 7,
                  Render \<lparr>online = False, process = False, progress = Some True\<rparr>,
                  Render \<lparr>online = True, process = False, progress = Some False\<rparr>]\<rparr>)"
  by (simp add: inputBus_def try_body_def runQueue_def iGate_def oGate_def render_def
      setTimeout_def update_ok_def new_device_def Let_def)

text \<open>
  C1 fails on the code. The device has completed one poll cycle, so its offline timer
  is armed, and the poll routine of the next cycle throws: \<open>inputBus\<close> cancels the timer,
  sets \<open>online\<close> to false, logs the error and throws it again without reaching \<open>oGate\<close>.
  No timer is armed afterwards, \<open>progress\<close> is still true, and no state change is
  rendered after the failure.
\<close>

theorem inputBus_failed_poll:
  "inputBus demo_exec update_fails 7 (snd (inputBus demo_exec update_ok 7 (new_device 30000))) =
     (Inl ''request timeout'', (new_device 30000)\<lparr>
        shares := \<lparr>online = False, process = False, progress = Some True\<rparr>,
        Provider := Some 7, offlineTimer := Some 1, timers := [], nextTimer := 2,
        trace := [CanRequest 7,
                  Render \<lparr>online = False, process = False, progress = Some True\<rparr>,
                  Render \<lparr>online = True, process = False, progress = Some False\<rparr>,
                  CanRequest 7,
                  Render \<lparr>online = True, process = False, progress = Some True\<rparr>,
                  ErrorLog ''Update device error'' ''request timeout'']\<rparr>)"
  by (simp add: first_cycle)
     (simp add: inputBus_def try_body_def runQueue_def iGate_def render_def clearTimeout_def
      update_fails_def new_device_def Let_def)

text \<open>
  C8 fails on the code. The guard of \<open>inputBus\<close> reads \<open>shares.process\<close>, and \<open>iGate\<close>
  writes \<open>shares.progress\<close>: while the device holds the transport, \<open>process\<close> is still
  false, and a second handoff arriving then is not ignored but starts another cycle.
\<close>

theorem iGate_leaves_process:
  "process (shares (iGate ((new_device 30000 :: demo_method DeviceRTU)\<lparr>Provider := Some 7\<rparr>)))
     = False
   \<and> progress (shares (iGate ((new_device 30000 :: demo_method DeviceRTU)\<lparr>Provider := Some 7\<rparr>)))
     = Some True
   \<and> trace (snd (inputBus demo_exec update_ok 8
        (iGate ((new_device 30000)\<lparr>Provider := Some 7\<rparr>)))) =
       [Render \<lparr>online = False, process = False, progress = Some True\<rparr>,
        CanRequest 8,
        Render \<lparr>online = False, process = False, progress = Some True\<rparr>,
        Render \<lparr>online = True, process = False, progress = Some False\<rparr>]"
  by (simp add: inputBus_def try_body_def runQueue_def iGate_def oGate_def render_def
      setTimeout_def update_ok_def new_device_def Let_def)

end
